theory Spec2Isabelle
  imports Complex_Main "HOL-Library.While_Combinator" "HOL-Library.Multiset"
    "HOL-Library.Product_Lexorder"
begin

section \<open>Data model (types/index.ts)\<close>

text \<open>
  The numeric fields of a process are JavaScript numbers that the data model declares to
  be integers; the scheduler is modelled over \<open>int\<close>, on which the arithmetic of the
  source (\<open>+\<close>, \<open>-\<close>, comparison, \<open>Math.min\<close>) is exact.  A timeline segment carries
  \<open>pid = null\<close> for an idle period, which is \<open>None\<close> here.  The field \<open>end\<close> of a
  segment is written \<open>seg_end\<close>, and the fields of a segment carry the prefix \<open>seg_\<close>
  throughout, since \<open>pid\<close> is also a field of a process.
\<close>

record process =
  pid :: string
  arrivalTime :: int
  burstTime :: int
  priority :: int
  insertionOrder :: int

record segment =
  seg_pid :: "string option"
  seg_start :: int
  seg_end :: int

text \<open>\<open>interface RRProcess extends Process { remainingBurst: number }\<close>\<close>

record rr_process = process +
  remainingBurst :: int

text \<open>
  \<open>ProcessMetrics\<close> repeats four fields of the process; they carry the prefix
  \<open>pm_\<close> here.  The averages and the utilisation are quotients and are modelled as exact
  rationals.
\<close>

record process_metrics =
  pm_pid :: string
  pm_arrivalTime :: int
  pm_burstTime :: int
  pm_priority :: int
  completionTime :: int
  waitingTime :: int
  turnaroundTime :: int
  responseTime :: int

record simulation_result =
  ganttChart :: "segment list"
  processMetrics :: "process_metrics list"
  averageWaitingTime :: rat
  averageTurnaroundTime :: rat
  averageResponseTime :: rat
  cpuUtilization :: rat
  totalTime :: int

datatype error = Error string

section \<open>Array primitives\<close>

text \<open>
  \<open>Array.prototype.sort\<close> with a comparator is stable; for a comparator that is a
  consistent total preorder its result is the unique stable sorted arrangement, which
  insertion from the right computes: an element goes in front of the first element
  it does not compare greater than.
\<close>

fun insertBy :: "('a \<Rightarrow> 'a \<Rightarrow> int) \<Rightarrow> 'a \<Rightarrow> 'a list \<Rightarrow> 'a list" where
  "insertBy cmp x [] = [x]"
| "insertBy cmp x (y # ys) = (if cmp x y \<le> 0 then x # y # ys else y # insertBy cmp x ys)"

definition sortBy :: "('a \<Rightarrow> 'a \<Rightarrow> int) \<Rightarrow> 'a list \<Rightarrow> 'a list" where
  "sortBy cmp xs = foldr (insertBy cmp) xs []"

text \<open>\<open>findIndex\<close> returns the first index whose element satisfies the predicate, or \<open>-1\<close>.\<close>

fun findIndex :: "('a \<Rightarrow> bool) \<Rightarrow> 'a list \<Rightarrow> int" where
  "findIndex P [] = - 1"
| "findIndex P (x # xs) =
     (if P x then 0 else (let i = findIndex P xs in if i < 0 then - 1 else i + 1))"

text \<open>
  \<open>xs.splice(index, 1)\<close>: a negative index counts from the end (clamped at 0), an index
  beyond the length is clamped to the length; one element is removed from there on.
\<close>

definition splice1 :: "int \<Rightarrow> 'a list \<Rightarrow> 'a list" where
  "splice1 index xs =
     (let n = int (length xs);
          from = (if index < 0 then max (n + index) 0 else min index n)
      in take (nat from) xs @ drop (Suc (nat from)) xs)"

section \<open>The comparators\<close>

definition cmpFCFS :: "'a process_scheme \<Rightarrow> 'a process_scheme \<Rightarrow> int" where
  "cmpFCFS a b =
     (if arrivalTime a \<noteq> arrivalTime b then arrivalTime a - arrivalTime b
      else insertionOrder a - insertionOrder b)"

definition cmpSJF :: "process \<Rightarrow> process \<Rightarrow> int" where
  "cmpSJF a b =
     (if burstTime a \<noteq> burstTime b then burstTime a - burstTime b
      else if arrivalTime a \<noteq> arrivalTime b then arrivalTime a - arrivalTime b
      else insertionOrder a - insertionOrder b)"

definition cmpPriority :: "process \<Rightarrow> process \<Rightarrow> int" where
  "cmpPriority a b =
     (if priority a \<noteq> priority b then priority a - priority b
      else if arrivalTime a \<noteq> arrivalTime b then arrivalTime a - arrivalTime b
      else insertionOrder a - insertionOrder b)"

section \<open>First come first served\<close>

text \<open>The loop variables of the schedulers: the timeline built so far and the clock.\<close>

record sched_state =
  gantt :: "segment list"
  currentTime :: int

definition idleSegment :: "int \<Rightarrow> int \<Rightarrow> segment" where
  "idleSegment s e = \<lparr>seg_pid = None, seg_start = s, seg_end = e\<rparr>"

definition runSegment :: "string \<Rightarrow> int \<Rightarrow> int \<Rightarrow> segment" where
  "runSegment p s e = \<lparr>seg_pid = Some p, seg_start = s, seg_end = e\<rparr>"

text \<open>One pass of the \<open>for (const proc of sorted)\<close> loop.\<close>

definition fcfsStep :: "process \<Rightarrow> 'a sched_state_scheme \<Rightarrow> 'a sched_state_scheme" where
  "fcfsStep proc s =
     (let s1 = (if currentTime s < arrivalTime proc
                then s\<lparr>gantt := gantt s @ [idleSegment (currentTime s) (arrivalTime proc)],
                       currentTime := arrivalTime proc\<rparr>
                else s)
      in s1\<lparr>gantt := gantt s1 @
                 [runSegment (pid proc) (currentTime s1) (currentTime s1 + burstTime proc)],
             currentTime := currentTime s1 + burstTime proc\<rparr>)"

definition scheduleFCFS :: "process list \<Rightarrow> segment list" where
  "scheduleFCFS processes =
     (let sorted = sortBy cmpFCFS processes
      in gantt (fold fcfsStep sorted \<lparr>gantt = [], currentTime = 0\<rparr>))"

section \<open>Shortest job first and priority scheduling\<close>

record np_state = sched_state +
  remaining :: "process list"

text \<open>
  \<open>scheduleSJF\<close> and \<open>schedulePriority\<close> are the same loop text with two different
  comparators; the body is written once, with the comparator as an argument.  The
  selected process is taken out of \<open>remaining\<close> through \<open>findIndex\<close> on its pid.
\<close>

definition npBody :: "(process \<Rightarrow> process \<Rightarrow> int) \<Rightarrow> np_state \<Rightarrow> np_state" where
  "npBody cmp s =
     (let available = filter (\<lambda>p. arrivalTime p \<le> currentTime s) (remaining s)
      in if length available = 0
         then (let nextArrival = Min (set (map arrivalTime (remaining s)))
               in s\<lparr>gantt := gantt s @ [idleSegment (currentTime s) nextArrival],
                     currentTime := nextArrival\<rparr>)
         else (let selected = hd (sortBy cmp available);
                   index = findIndex (\<lambda>p. pid p = pid selected) (remaining s)
               in s\<lparr>gantt := gantt s @
                       [runSegment (pid selected) (currentTime s)
                          (currentTime s + burstTime selected)],
                     currentTime := currentTime s + burstTime selected,
                     remaining := splice1 index (remaining s)\<rparr>))"

definition npCond :: "np_state \<Rightarrow> bool" where
  "npCond s = (length (remaining s) > 0)"

definition npInit :: "process list \<Rightarrow> np_state" where
  "npInit processes = \<lparr>gantt = [], currentTime = 0, remaining = processes\<rparr>"

definition npLoop :: "(process \<Rightarrow> process \<Rightarrow> int) \<Rightarrow> process list \<Rightarrow> np_state option" where
  "npLoop cmp processes = while_option npCond (npBody cmp) (npInit processes)"

definition scheduleSJF :: "process list \<Rightarrow> segment list option" where
  "scheduleSJF processes = map_option gantt (npLoop cmpSJF processes)"

definition schedulePriority :: "process list \<Rightarrow> segment list option" where
  "schedulePriority processes = map_option gantt (npLoop cmpPriority processes)"

section \<open>Round robin\<close>

text \<open>
  The ready queue holds references to the \<open>RRProcess\<close> objects.  An object is in the queue
  at most once, is taken out before its \<open>remainingBurst\<close> is written and is read again
  only through the queue, so the queue is modelled as a list of the objects' values and
  the write as an update of the value that is pushed back.
\<close>

record rr_state = sched_state +
  readyQueue :: "rr_process list"
  processIndex :: nat

definition toRR :: "process \<Rightarrow> rr_process" where
  "toRR p = \<lparr>pid = pid p, arrivalTime = arrivalTime p, burstTime = burstTime p,
             priority = priority p, insertionOrder = insertionOrder p,
             remainingBurst = burstTime p\<rparr>"

function enqueueArrivals :: "rr_process list \<Rightarrow> int \<Rightarrow> rr_state \<Rightarrow> rr_state" where
  "enqueueArrivals allProcesses upToTime s =
     (if processIndex s < length allProcesses \<and>
         arrivalTime (allProcesses ! processIndex s) \<le> upToTime
      then enqueueArrivals allProcesses upToTime
             (s\<lparr>readyQueue := readyQueue s @ [allProcesses ! processIndex s],
                processIndex := Suc (processIndex s)\<rparr>)
      else s)"
  by pat_completeness auto
termination
  by (relation "measure (\<lambda>(allProcesses, upToTime, s). length allProcesses - processIndex s)")
     auto

declare enqueueArrivals.simps [simp del]

definition rrBody :: "int \<Rightarrow> rr_process list \<Rightarrow> rr_state \<Rightarrow> rr_state" where
  "rrBody quantum allProcesses s =
     (if length (readyQueue s) = 0
      then (let nextArrival = arrivalTime (allProcesses ! processIndex s);
                s1 = s\<lparr>gantt := gantt s @ [idleSegment (currentTime s) nextArrival],
                       currentTime := nextArrival\<rparr>
            in enqueueArrivals allProcesses (currentTime s1) s1)
      else (let current = hd (readyQueue s);
                s1 = s\<lparr>readyQueue := tl (readyQueue s)\<rparr>;
                execTime = min quantum (remainingBurst current);
                s2 = s1\<lparr>gantt := gantt s1 @
                          [runSegment (pid current) (currentTime s1) (currentTime s1 + execTime)],
                        currentTime := currentTime s1 + execTime\<rparr>;
                current' = current\<lparr>remainingBurst := remainingBurst current - execTime\<rparr>;
                s3 = enqueueArrivals allProcesses (currentTime s2) s2
            in if remainingBurst current' > 0
               then s3\<lparr>readyQueue := readyQueue s3 @ [current']\<rparr>
               else s3))"

definition rrCond :: "rr_process list \<Rightarrow> rr_state \<Rightarrow> bool" where
  "rrCond allProcesses s =
     (length (readyQueue s) > 0 \<or> processIndex s < length allProcesses)"

definition rrAll :: "process list \<Rightarrow> rr_process list" where
  "rrAll processes = sortBy cmpFCFS (map toRR processes)"

definition rrInit :: "rr_process list \<Rightarrow> rr_state" where
  "rrInit allProcesses =
     enqueueArrivals allProcesses 0
       \<lparr>gantt = [], currentTime = 0, readyQueue = [], processIndex = 0\<rparr>"

definition rrLoop :: "process list \<Rightarrow> int \<Rightarrow> rr_state option" where
  "rrLoop processes quantum =
     (let allProcesses = rrAll processes
      in while_option (rrCond allProcesses) (rrBody quantum allProcesses) (rrInit allProcesses))"

definition scheduleRoundRobin :: "process list \<Rightarrow> int \<Rightarrow> segment list option" where
  "scheduleRoundRobin processes quantum = map_option gantt (rrLoop processes quantum)"

section \<open>Metrics and the dispatcher\<close>

definition duration :: "segment \<Rightarrow> int" where
  "duration s = seg_end s - seg_start s"

text \<open>
  The two \<open>Map\<close>s of \<open>computeMetrics\<close>, filled in one pass over the timeline: the
  start of the first segment of each pid and the end of its last one.
\<close>

definition recordSegment ::
  "segment \<Rightarrow> (string \<rightharpoonup> int) \<times> (string \<rightharpoonup> int) \<Rightarrow> (string \<rightharpoonup> int) \<times> (string \<rightharpoonup> int)" where
  "recordSegment segment maps =
     (case seg_pid segment of
        None \<Rightarrow> maps
      | Some p \<Rightarrow>
          (let firstStart = fst maps; completion = snd maps
           in ((if firstStart p = None then firstStart(p \<mapsto> seg_start segment)
                else firstStart),
               completion(p \<mapsto> seg_end segment))))"

text \<open>\<open>m.get(k) || 0\<close> is 0 for a missing key, and for a key that holds 0.\<close>

definition getOr0 :: "(string \<rightharpoonup> int) \<Rightarrow> string \<Rightarrow> int" where
  "getOr0 m k = (case m k of None \<Rightarrow> 0 | Some v \<Rightarrow> v)"

definition metricsOf ::
  "(string \<rightharpoonup> int) \<Rightarrow> (string \<rightharpoonup> int) \<Rightarrow> process \<Rightarrow> process_metrics" where
  "metricsOf firstStart completion proc =
     (let ct = getOr0 completion (pid proc);
          turnaround = ct - arrivalTime proc;
          waiting = turnaround - burstTime proc;
          response = getOr0 firstStart (pid proc) - arrivalTime proc
      in \<lparr>pm_pid = pid proc, pm_arrivalTime = arrivalTime proc, pm_burstTime = burstTime proc,
          pm_priority = priority proc, completionTime = ct, waitingTime = max 0 waiting,
          turnaroundTime = turnaround, responseTime = max 0 response\<rparr>)"

text \<open>
  The metrics are sorted with \<open>String.prototype.localeCompare\<close>, whose order depends on
  the locale of the host; the comparison is an argument of the model.  The averages divide
  by the number of processes, which is not 0 where the dispatcher calls \<open>computeMetrics\<close>.
\<close>

definition computeMetrics ::
  "(string \<Rightarrow> string \<Rightarrow> int) \<Rightarrow> process list \<Rightarrow> segment list \<Rightarrow> simulation_result" where
  "computeMetrics localeCompare processes chart =
     (let maps = fold recordSegment chart (Map.empty, Map.empty);
          metrics = sortBy (\<lambda>a b. localeCompare (pm_pid a) (pm_pid b))
                      (map (metricsOf (fst maps) (snd maps)) processes);
          n = length metrics;
          avgWaiting = of_int (foldl (\<lambda>sum p. sum + waitingTime p) 0 metrics) / of_nat n;
          avgTurnaround = of_int (foldl (\<lambda>sum p. sum + turnaroundTime p) 0 metrics) / of_nat n;
          avgResponse = of_int (foldl (\<lambda>sum p. sum + responseTime p) 0 metrics) / of_nat n;
          total = (if length chart > 0 then seg_end (chart ! (length chart - 1)) else 0);
          busy = foldl (\<lambda>sum s. sum + duration s) 0
                   (filter (\<lambda>s. seg_pid s \<noteq> None) chart);
          utilization = (if total > 0 then (of_int busy / of_int total) * 100 else 0)
      in \<lparr>ganttChart = chart, processMetrics = metrics, averageWaitingTime = avgWaiting,
          averageTurnaroundTime = avgTurnaround, averageResponseTime = avgResponse,
          cpuUtilization = utilization, totalTime = total\<rparr>)"

text \<open>
  The result of a call: \<open>None\<close> when the call does not return, \<open>Some (Inl e)\<close> when it
  throws \<open>e\<close>, \<open>Some (Inr r)\<close> when it returns \<open>r\<close>.  The third argument of the
  source is optional and defaults to 2.
\<close>

definition emptyResult :: simulation_result where
  "emptyResult =
     \<lparr>ganttChart = [], processMetrics = [], averageWaitingTime = 0,
      averageTurnaroundTime = 0, averageResponseTime = 0, cpuUtilization = 0, totalTime = 0\<rparr>"

definition simulateSchedule ::
  "(string \<Rightarrow> string \<Rightarrow> int) \<Rightarrow> process list \<Rightarrow> string \<Rightarrow> int option \<Rightarrow>
     (error + simulation_result) option" where
  "simulateSchedule localeCompare processes algorithm quantumArg =
     (let quantum = (case quantumArg of None \<Rightarrow> 2 | Some q \<Rightarrow> q)
      in if length processes = 0
         then Some (Inr emptyResult)
         else (let procs = map (\<lambda>p. p) processes
               in if algorithm = ''FCFS''
                  then Some (Inr (computeMetrics localeCompare procs (scheduleFCFS procs)))
                  else if algorithm = ''SJF''
                  then map_option (\<lambda>g. Inr (computeMetrics localeCompare procs g))
                         (scheduleSJF procs)
                  else if algorithm = ''Priority''
                  then map_option (\<lambda>g. Inr (computeMetrics localeCompare procs g))
                         (schedulePriority procs)
                  else if algorithm = ''RoundRobin''
                  then map_option (\<lambda>g. Inr (computeMetrics localeCompare procs g))
                         (scheduleRoundRobin procs quantum)
                  else Some (Inl (Error (''Unknown algorithm: '' @ algorithm)))))"

text \<open>
  A comparison by code units, for the examples: on pids such as P1 to P5 every locale
  agrees with it.
\<close>

fun compareCodeUnits :: "string \<Rightarrow> string \<Rightarrow> int" where
  "compareCodeUnits [] [] = 0"
| "compareCodeUnits [] (y # ys) = - 1"
| "compareCodeUnits (x # xs) [] = 1"
| "compareCodeUnits (x # xs) (y # ys) =
     (if (of_char x :: nat) < of_char y then - 1
      else if (of_char y :: nat) < of_char x then 1
      else compareCodeUnits xs ys)"

section \<open>Validation of one candidate\<close>

text \<open>
  \<open>Partial<Process>\<close>: every field may be absent.  The validator compares the numeric
  fields with 0 and nothing else, so they are taken as exact rationals (the finite values
  of a JavaScript number); \<open>NaN\<close> and the infinities are outside this model.  Strings are
  sequences of code units below 256, and \<open>trim\<close> strips the white space and line
  terminators of that range: tab, line feed, vertical tab, form feed, carriage return,
  space and no-break space.
\<close>

record partial_process =
  pp_pid :: "string option"
  pp_arrivalTime :: "rat option"
  pp_burstTime :: "rat option"
  pp_priority :: "rat option"
  pp_insertionOrder :: "rat option"

record validation =
  valid :: bool
  errors :: "string list"

definition isWhiteSpace :: "char \<Rightarrow> bool" where
  "isWhiteSpace c = (of_char c \<in> {9, 10, 11, 12, 13, 32, 160 :: nat})"

definition trim :: "string \<Rightarrow> string" where
  "trim s = rev (dropWhile isWhiteSpace (rev (dropWhile isWhiteSpace s)))"

definition validateProcess :: "partial_process \<Rightarrow> validation" where
  "validateProcess p =
     (let errors0 = [];
          errors1 = (if (case pp_pid p of None \<Rightarrow> True | Some s \<Rightarrow> s = [] \<or> trim s = [])
                     then errors0 @ [''Process ID is required''] else errors0);
          errors2 = (if (case pp_arrivalTime p of None \<Rightarrow> True | Some a \<Rightarrow> a < 0)
                     then errors1 @ [''Arrival time must be >= 0''] else errors1);
          errors3 = (if (case pp_burstTime p of None \<Rightarrow> True | Some b \<Rightarrow> b \<le> 0)
                     then errors2 @ [''Burst time must be > 0''] else errors2);
          errors4 = (if (case pp_priority p of None \<Rightarrow> True | Some b \<Rightarrow> b < 0)
                     then errors3 @ [''Priority must be >= 0''] else errors3)
      in \<lparr>valid = (length errors4 = 0), errors = errors4\<rparr>)"

section \<open>The store-level model\<close>

text \<open>
  The functions above work on values.  To speak about what a call does to the objects and
  the list that the caller owns, the same code is modelled a second time over a store.
  The store holds, under addresses, the \<open>Process\<close> objects, the \<open>RRProcess\<close> objects
  and the arrays of references to such objects; \<open>nextAddr\<close> is the first address not yet
  handed out.  Every array of process references that the source creates (by spread, by
  \<open>map\<close>, by \<open>filter\<close> or as a literal) is allocated in the store, and \<open>sort\<close>,
  \<open>splice\<close>, \<open>push\<close> and \<open>shift\<close> write to the array they are called on.  Arrays of
  numbers, the timeline and the result are fresh values that hold no process reference and
  stay values.  \<open>allProcesses\<close> is a \<open>const\<close> array that nothing writes to after the
  \<open>sort\<close> in its initialiser; the loops of round robin take its content.
\<close>

type_synonym addr = nat

record store =
  procOf :: "addr \<Rightarrow> process"
  rrOf :: "addr \<Rightarrow> rr_process"
  arrayOf :: "addr \<Rightarrow> addr list"
  nextAddr :: addr

definition newArray :: "store \<Rightarrow> addr list \<Rightarrow> store \<times> addr" where
  "newArray h xs = (h\<lparr>arrayOf := (arrayOf h)(nextAddr h := xs), nextAddr := Suc (nextAddr h)\<rparr>, nextAddr h)"

definition setArray :: "store \<Rightarrow> addr \<Rightarrow> addr list \<Rightarrow> store" where
  "setArray h a xs = h\<lparr>arrayOf := (arrayOf h)(a := xs)\<rparr>"

definition newProc :: "store \<Rightarrow> process \<Rightarrow> store \<times> addr" where
  "newProc h p = (h\<lparr>procOf := (procOf h)(nextAddr h := p), nextAddr := Suc (nextAddr h)\<rparr>, nextAddr h)"

definition newRR :: "store \<Rightarrow> rr_process \<Rightarrow> store \<times> addr" where
  "newRR h r = (h\<lparr>rrOf := (rrOf h)(nextAddr h := r), nextAddr := Suc (nextAddr h)\<rparr>, nextAddr h)"

definition setRemainingBurst :: "store \<Rightarrow> addr \<Rightarrow> int \<Rightarrow> store" where
  "setRemainingBurst h a v = h\<lparr>rrOf := (rrOf h)(a := (rrOf h a)\<lparr>remainingBurst := v\<rparr>)\<rparr>"

fun mapCopy :: "store \<Rightarrow> addr list \<Rightarrow> store \<times> addr list" where
  "mapCopy h [] = (h, [])"
| "mapCopy h (p # ps) =
     (let (h1, r) = newProc h (procOf h p);
          (h2, rs) = mapCopy h1 ps
      in (h2, r # rs))"

fun mapToRR :: "store \<Rightarrow> addr list \<Rightarrow> store \<times> addr list" where
  "mapToRR h [] = (h, [])"
| "mapToRR h (p # ps) =
     (let (h1, r) = newRR h (toRR (procOf h p));
          (h2, rs) = mapToRR h1 ps
      in (h2, r # rs))"

definition scheduleFCFS_h :: "store \<Rightarrow> addr \<Rightarrow> store \<times> segment list" where
  "scheduleFCFS_h h processes =
     (let (h1, sortedRef) = newArray h (arrayOf h processes);
          h2 = setArray h1 sortedRef
                 (sortBy (\<lambda>a b. cmpFCFS (procOf h1 a) (procOf h1 b)) (arrayOf h1 sortedRef))
      in (h2, gantt (fold (\<lambda>proc. fcfsStep (procOf h2 proc)) (arrayOf h2 sortedRef)
                      \<lparr>gantt = [], currentTime = 0\<rparr>)))"

record np_hstate = sched_state +
  np_store :: store

definition npBody_h :: "(process \<Rightarrow> process \<Rightarrow> int) \<Rightarrow> addr \<Rightarrow> np_hstate \<Rightarrow> np_hstate" where
  "npBody_h cmp remainingRef s =
     (let h = np_store s;
          (h1, availableRef) =
             newArray h (filter (\<lambda>p. arrivalTime (procOf h p) \<le> currentTime s)
                           (arrayOf h remainingRef))
      in if length (arrayOf h1 availableRef) = 0
         then (let nextArrival =
                     Min (set (map (\<lambda>p. arrivalTime (procOf h1 p)) (arrayOf h1 remainingRef)))
               in s\<lparr>gantt := gantt s @ [idleSegment (currentTime s) nextArrival],
                     currentTime := nextArrival, np_store := h1\<rparr>)
         else (let h2 = setArray h1 availableRef
                          (sortBy (\<lambda>a b. cmp (procOf h1 a) (procOf h1 b))
                             (arrayOf h1 availableRef));
                   selected = hd (arrayOf h2 availableRef);
                   index = findIndex (\<lambda>p. pid (procOf h2 p) = pid (procOf h2 selected))
                             (arrayOf h2 remainingRef);
                   h3 = setArray h2 remainingRef (splice1 index (arrayOf h2 remainingRef))
               in s\<lparr>gantt := gantt s @
                       [runSegment (pid (procOf h3 selected)) (currentTime s)
                          (currentTime s + burstTime (procOf h3 selected))],
                     currentTime := currentTime s + burstTime (procOf h3 selected),
                     np_store := h3\<rparr>))"

definition scheduleNP_h ::
  "(process \<Rightarrow> process \<Rightarrow> int) \<Rightarrow> store \<Rightarrow> addr \<Rightarrow> (store \<times> segment list) option" where
  "scheduleNP_h cmp h processes =
     (let (h1, remainingRef) = newArray h (arrayOf h processes)
      in map_option (\<lambda>s. (np_store s, gantt s))
           (while_option (\<lambda>s. length (arrayOf (np_store s) remainingRef) > 0)
              (npBody_h cmp remainingRef)
              \<lparr>gantt = [], currentTime = 0, np_store = h1\<rparr>))"

record rr_hstate = sched_state +
  rr_store :: store
  processIndex_h :: nat

function enqueueArrivals_h :: "addr list \<Rightarrow> addr \<Rightarrow> int \<Rightarrow> rr_hstate \<Rightarrow> rr_hstate" where
  "enqueueArrivals_h allProcesses readyQueueRef upToTime s =
     (if processIndex_h s < length allProcesses \<and>
         arrivalTime (rrOf (rr_store s) (allProcesses ! processIndex_h s)) \<le> upToTime
      then enqueueArrivals_h allProcesses readyQueueRef upToTime
             (s\<lparr>rr_store := setArray (rr_store s) readyQueueRef
                    (arrayOf (rr_store s) readyQueueRef @ [allProcesses ! processIndex_h s]),
                processIndex_h := Suc (processIndex_h s)\<rparr>)
      else s)"
  by pat_completeness auto
termination
  by (relation "measure (\<lambda>(allProcesses, readyQueueRef, upToTime, s).
        length allProcesses - processIndex_h s)") auto

declare enqueueArrivals_h.simps [simp del]

definition rrBody_h :: "int \<Rightarrow> addr list \<Rightarrow> addr \<Rightarrow> rr_hstate \<Rightarrow> rr_hstate" where
  "rrBody_h quantum allProcesses readyQueueRef s =
     (let h = rr_store s
      in if length (arrayOf h readyQueueRef) = 0
         then (let nextArrival = arrivalTime (rrOf h (allProcesses ! processIndex_h s));
                   s1 = s\<lparr>gantt := gantt s @ [idleSegment (currentTime s) nextArrival],
                          currentTime := nextArrival\<rparr>
               in enqueueArrivals_h allProcesses readyQueueRef (currentTime s1) s1)
         else (let current = hd (arrayOf h readyQueueRef);
                   h1 = setArray h readyQueueRef (tl (arrayOf h readyQueueRef));
                   execTime = min quantum (remainingBurst (rrOf h1 current));
                   h2 = setRemainingBurst h1 current (remainingBurst (rrOf h1 current) - execTime);
                   s2 = s\<lparr>gantt := gantt s @
                            [runSegment (pid (rrOf h1 current)) (currentTime s)
                               (currentTime s + execTime)],
                          currentTime := currentTime s + execTime,
                          rr_store := h2\<rparr>;
                   s3 = enqueueArrivals_h allProcesses readyQueueRef (currentTime s2) s2;
                   h3 = rr_store s3
               in if remainingBurst (rrOf h3 current) > 0
                  then s3\<lparr>rr_store := setArray h3 readyQueueRef (arrayOf h3 readyQueueRef @ [current])\<rparr>
                  else s3))"

definition scheduleRoundRobin_h ::
  "store \<Rightarrow> addr \<Rightarrow> int \<Rightarrow> (store \<times> segment list) option" where
  "scheduleRoundRobin_h h processes quantum =
     (let (h1, refs) = mapToRR h (arrayOf h processes);
          (h2, allRef) = newArray h1 refs;
          h3 = setArray h2 allRef
                 (sortBy (\<lambda>a b. cmpFCFS (rrOf h2 a) (rrOf h2 b)) (arrayOf h2 allRef));
          allProcesses = arrayOf h3 allRef;
          (h4, readyQueueRef) = newArray h3 [];
          s0 = enqueueArrivals_h allProcesses readyQueueRef 0
                 \<lparr>gantt = [], currentTime = 0, rr_store = h4, processIndex_h = 0\<rparr>
      in map_option (\<lambda>s. (rr_store s, gantt s))
           (while_option
              (\<lambda>s. length (arrayOf (rr_store s) readyQueueRef) > 0 \<or>
                    processIndex_h s < length allProcesses)
              (rrBody_h quantum allProcesses readyQueueRef) s0))"

definition simulateSchedule_h ::
  "(string \<Rightarrow> string \<Rightarrow> int) \<Rightarrow> store \<Rightarrow> addr \<Rightarrow> string \<Rightarrow> int option \<Rightarrow>
     (store \<times> (error + simulation_result)) option" where
  "simulateSchedule_h localeCompare h processes algorithm quantumArg =
     (let quantum = (case quantumArg of None \<Rightarrow> 2 | Some q \<Rightarrow> q)
      in if length (arrayOf h processes) = 0
         then Some (h, Inr emptyResult)
         else (let (h1, refs) = mapCopy h (arrayOf h processes);
                   (h2, procs) = newArray h1 refs;
                   metrics = (\<lambda>(h3, g).
                      (h3, Inr (computeMetrics localeCompare
                                  (map (procOf h3) (arrayOf h3 procs)) g)))
               in if algorithm = ''FCFS''
                  then Some (metrics (scheduleFCFS_h h2 procs))
                  else if algorithm = ''SJF''
                  then map_option metrics (scheduleNP_h cmpSJF h2 procs)
                  else if algorithm = ''Priority''
                  then map_option metrics (scheduleNP_h cmpPriority h2 procs)
                  else if algorithm = ''RoundRobin''
                  then map_option metrics (scheduleRoundRobin_h h2 procs quantum)
                  else Some (h2, Inl (Error (''Unknown algorithm: '' @ algorithm)))))"

text \<open>\<open>getExampleProcesses\<close>: the canned data set.\<close>

definition getExampleProcesses :: "process list" where
  "getExampleProcesses =
     [\<lparr>pid = ''P1'', arrivalTime = 0, burstTime = 5, priority = 2, insertionOrder = 0\<rparr>,
      \<lparr>pid = ''P2'', arrivalTime = 1, burstTime = 3, priority = 1, insertionOrder = 1\<rparr>,
      \<lparr>pid = ''P3'', arrivalTime = 2, burstTime = 8, priority = 4, insertionOrder = 2\<rparr>,
      \<lparr>pid = ''P4'', arrivalTime = 3, burstTime = 6, priority = 3, insertionOrder = 3\<rparr>,
      \<lparr>pid = ''P5'', arrivalTime = 4, burstTime = 4, priority = 2, insertionOrder = 4\<rparr>]"


section \<open>Vocabulary of the properties\<close>

text \<open>
  The inputs the engine is specified for: arrival times from 0, positive bursts, pairwise
  distinct pids; and the policy tokens it accepts, with a quantum of at least 1 for round
  robin (an omitted quantum is 2).
\<close>

definition validProcesses :: "process list \<Rightarrow> bool" where
  "validProcesses ps =
     (list_all (\<lambda>p. 0 \<le> arrivalTime p \<and> 0 < burstTime p) ps \<and> distinct (map pid ps))"

definition supportedPolicy :: "string \<Rightarrow> int option \<Rightarrow> bool" where
  "supportedPolicy algorithm quantumArg =
     (algorithm \<in> {''FCFS'', ''SJF'', ''Priority'', ''RoundRobin''} \<and>
      (algorithm = ''RoundRobin'' \<longrightarrow> (case quantumArg of None \<Rightarrow> True | Some q \<Rightarrow> 1 \<le> q)))"

text \<open>
  A timeline is contiguous from \<open>t\<close> when its first segment starts at \<open>t\<close>, every segment
  is non-empty and each one starts where its predecessor ends; \<open>endFrom t g\<close> is where
  it ends (\<open>t\<close> for the empty timeline).
\<close>

fun contiguousFrom :: "int \<Rightarrow> segment list \<Rightarrow> bool" where
  "contiguousFrom t [] = True"
| "contiguousFrom t (s # ss) =
     (seg_start s = t \<and> seg_start s < seg_end s \<and> contiguousFrom (seg_end s) ss)"

definition endFrom :: "int \<Rightarrow> segment list \<Rightarrow> int" where
  "endFrom t g = (if g = [] then t else seg_end (last g))"

text \<open>
  The time a timeline gives to the pid \<open>x\<close>, the time it gives to any process, and the
  burst time a list of processes asks for under the pid \<open>x\<close>.
\<close>

definition busyOf :: "string \<Rightarrow> segment list \<Rightarrow> int" where
  "busyOf x g = sum_list (map duration (filter (\<lambda>s. seg_pid s = Some x) g))"


definition burstOf :: "string \<Rightarrow> 'a process_scheme list \<Rightarrow> int" where
  "burstOf x ps = sum_list (map burstTime (filter (\<lambda>p. pid p = x) ps))"

text \<open>
  The state machine that the specification gives for the non-preemptive policies
  (section 4.1), in the specification's words: the available processes are those of
  \<open>remaining\<close> that have arrived; when there is none, an idle segment runs to the
  earliest arrival in \<open>remaining\<close>; otherwise the first process of \<open>available\<close> in
  the policy's ascending order is selected, runs for its burst time and is removed from
  \<open>remaining\<close>.  The machine stops when \<open>remaining\<close> is empty.
\<close>

definition specStep :: "(process \<Rightarrow> process \<Rightarrow> int) \<Rightarrow> np_state \<Rightarrow> np_state" where
  "specStep cmp s =
     (let available = filter (\<lambda>p. arrivalTime p \<le> currentTime s) (remaining s)
      in if available = []
         then s\<lparr>gantt := gantt s @
                  [idleSegment (currentTime s) (Min (set (map arrivalTime (remaining s))))],
                currentTime := Min (set (map arrivalTime (remaining s)))\<rparr>
         else (let selected = hd (sortBy cmp available)
               in s\<lparr>gantt := gantt s @
                       [runSegment (pid selected) (currentTime s)
                          (currentTime s + burstTime selected)],
                     currentTime := currentTime s + burstTime selected,
                     remaining := remove1 selected (remaining s)\<rparr>))"

definition specLoop :: "(process \<Rightarrow> process \<Rightarrow> int) \<Rightarrow> process list \<Rightarrow> segment list option" where
  "specLoop cmp processes =
     map_option gantt
       (while_option (\<lambda>s. remaining s \<noteq> []) (specStep cmp)
          \<lparr>gantt = [], currentTime = 0, remaining = processes\<rparr>)"

text \<open>
  Two processes that meet at one instant: P2 arrives at 2, when the first slice of P1
  ends under a quantum of 2.  And two descriptors that share a pid, which the data model
  excludes.
\<close>

definition tieExample :: "process list" where
  "tieExample =
     [\<lparr>pid = ''P1'', arrivalTime = 0, burstTime = 4, priority = 1, insertionOrder = 0\<rparr>,
      \<lparr>pid = ''P2'', arrivalTime = 2, burstTime = 2, priority = 1, insertionOrder = 1\<rparr>]"

definition dupExample :: "process list" where
  "dupExample =
     [\<lparr>pid = ''X'', arrivalTime = 5, burstTime = 1, priority = 1, insertionOrder = 0\<rparr>,
      \<lparr>pid = ''X'', arrivalTime = 0, burstTime = 2, priority = 1, insertionOrder = 1\<rparr>]"

section \<open>Invariants and measures of the loops\<close>

definition keyFCFS :: "'a process_scheme \<Rightarrow> int \<times> int" where
  "keyFCFS p = (arrivalTime p, insertionOrder p)"

definition timelineInv :: "'a sched_state_scheme \<Rightarrow> bool" where
  "timelineInv s = (contiguousFrom 0 (gantt s) \<and> currentTime s = endFrom 0 (gantt s))"

definition npInv1 :: "np_state \<Rightarrow> bool" where
  "npInv1 s = (timelineInv s \<and> (\<forall>p\<in>set (remaining s). 0 < burstTime p))"

definition npInv2 :: "process list \<Rightarrow> np_state \<Rightarrow> bool" where
  "npInv2 ps s = (distinct (map pid (remaining s)) \<and>
     (\<forall>x. busyOf x (gantt s) + burstOf x (remaining s) = burstOf x ps))"

definition npMeasure :: "np_state \<Rightarrow> nat" where
  "npMeasure s = 2 * length (remaining s) -
     (if \<exists>p\<in>set (remaining s). arrivalTime p \<le> currentTime s then 1 else 0)"

definition arrivedBy :: "int \<Rightarrow> rr_process list \<Rightarrow> rr_state \<Rightarrow> rr_process list" where
  "arrivedBy u allProcesses s =
     takeWhile (\<lambda>p. arrivalTime p \<le> u) (drop (processIndex s) allProcesses)"

definition rrInv :: "rr_process list \<Rightarrow> rr_state \<Rightarrow> bool" where
  "rrInv allProcesses s =
     (timelineInv s \<and> (\<forall>p\<in>set (readyQueue s). 0 < remainingBurst p) \<and>
      (\<forall>p\<in>set (drop (processIndex s) allProcesses). currentTime s < arrivalTime p))"

definition remOf :: "string \<Rightarrow> rr_process list \<Rightarrow> int" where
  "remOf x q = sum_list (map remainingBurst (filter (\<lambda>p. pid p = x) q))"

definition rrWork :: "rr_process list \<Rightarrow> rr_state \<Rightarrow> bool" where
  "rrWork allProcesses s =
     (\<forall>x. busyOf x (gantt s) + remOf x (readyQueue s) +
          remOf x (drop (processIndex s) allProcesses) = remOf x allProcesses)"

definition rrMeasure :: "rr_process list \<Rightarrow> rr_state \<Rightarrow> int" where
  "rrMeasure allProcesses s =
     sum_list (map remainingBurst (readyQueue s)) +
     sum_list (map remainingBurst (drop (processIndex s) allProcesses)) +
     int (length allProcesses - processIndex s)"

text \<open>
  For the store-level model: the part of the store that a call must leave alone, the
  frame invariants of the two loops, and the abstraction from store-level states to the
  states of the value-level loops together with the invariant under which it commutes
  with the loop bodies.
\<close>

definition unchangedBelow :: "addr \<Rightarrow> store \<Rightarrow> store \<Rightarrow> bool" where
  "unchangedBelow n h h' =
     (\<forall>a<n. procOf h' a = procOf h a \<and> rrOf h' a = rrOf h a \<and> arrayOf h' a = arrayOf h a)"

definition npFrame :: "addr \<Rightarrow> store \<Rightarrow> addr \<Rightarrow> np_hstate \<Rightarrow> bool" where
  "npFrame n h0 remainingRef s =
     (unchangedBelow n h0 (np_store s) \<and> n \<le> remainingRef \<and> n \<le> nextAddr (np_store s))"

definition arrivedBy_h :: "int \<Rightarrow> addr list \<Rightarrow> rr_hstate \<Rightarrow> addr list" where
  "arrivedBy_h u allProcesses s =
     takeWhile (\<lambda>a. arrivalTime (rrOf (rr_store s) a) \<le> u) (drop (processIndex_h s) allProcesses)"

definition rrFrame :: "addr \<Rightarrow> store \<Rightarrow> addr list \<Rightarrow> addr \<Rightarrow> rr_hstate \<Rightarrow> bool" where
  "rrFrame n h0 allProcesses rq s =
     (unchangedBelow n h0 (rr_store s) \<and> n \<le> rq \<and> (\<forall>a\<in>set allProcesses. n \<le> a) \<and>
      (\<forall>a\<in>set (arrayOf (rr_store s) rq). n \<le> a))"

definition absNP :: "addr \<Rightarrow> np_hstate \<Rightarrow> np_state" where
  "absNP remainingRef s =
     \<lparr>gantt = gantt s, currentTime = currentTime s,
      remaining = map (procOf (np_store s)) (arrayOf (np_store s) remainingRef)\<rparr>"

definition absRR :: "addr \<Rightarrow> rr_hstate \<Rightarrow> rr_state" where
  "absRR rq s =
     \<lparr>gantt = gantt s, currentTime = currentTime s,
      readyQueue = map (rrOf (rr_store s)) (arrayOf (rr_store s) rq),
      processIndex = processIndex_h s\<rparr>"

definition rrSim :: "addr list \<Rightarrow> rr_process list \<Rightarrow> addr \<Rightarrow> rr_hstate \<Rightarrow> bool" where
  "rrSim allProcesses allValues rq s =
     ((\<forall>j. processIndex_h s \<le> j \<and> j < length allProcesses \<longrightarrow>
          rrOf (rr_store s) (allProcesses ! j) = allValues ! j) \<and>
      set (arrayOf (rr_store s) rq) \<subseteq> set (take (processIndex_h s) allProcesses) \<and>
      distinct (arrayOf (rr_store s) rq))"

text \<open>The state after the slice has been recorded and the remaining burst written.\<close>

definition afterSlice :: "int \<Rightarrow> addr \<Rightarrow> rr_hstate \<Rightarrow> rr_hstate" where
  "afterSlice quantum rq s =
     (let h = rr_store s; current = hd (arrayOf h rq);
          execTime = min quantum (remainingBurst (rrOf h current))
      in s\<lparr>gantt := gantt s @
              [runSegment (pid (rrOf h current)) (currentTime s) (currentTime s + execTime)],
            currentTime := currentTime s + execTime,
            rr_store := setRemainingBurst (setArray h rq (tl (arrayOf h rq))) current
                          (remainingBurst (rrOf h current) - execTime)\<rparr>)"

definition exampleStore :: store where
  "exampleStore =
     \<lparr>procOf = (\<lambda>a. getExampleProcesses ! min a 4),
      rrOf = (\<lambda>a. toRR (getExampleProcesses ! 0)),
      arrayOf = (\<lambda>a. if a = 5 then [0, 1, 2, 3, 4] else []),
      nextAddr = 6\<rparr>"

section \<open>Sorting, searching and removing\<close>

lemma set_insertBy: "set (insertBy cmp x xs) = insert x (set xs)"
  by (induction xs) auto

lemma length_insertBy: "length (insertBy cmp x xs) = Suc (length xs)"
  by (induction xs) auto

lemma mset_insertBy: "mset (insertBy cmp x xs) = add_mset x (mset xs)"
  by (induction xs) auto

lemma mset_sortBy: "mset (sortBy cmp xs) = mset xs"
  unfolding sortBy_def by (induction xs) (auto simp: mset_insertBy)

lemma set_sortBy: "set (sortBy cmp xs) = set xs"
  using mset_sortBy [of cmp xs] by (metis set_mset_mset)

lemma length_sortBy: "length (sortBy cmp xs) = length xs"
  using mset_sortBy [of cmp xs] by (metis size_mset)

lemma sortBy_Nil_iff: "sortBy cmp xs = [] \<longleftrightarrow> xs = []"
  using length_sortBy [of cmp xs] by auto

lemma hd_sortBy_in: "xs \<noteq> [] \<Longrightarrow> hd (sortBy cmp xs) \<in> set xs"
  using set_sortBy [of cmp xs] sortBy_Nil_iff [of cmp xs] hd_in_set by blast

lemma sortBy_Cons: "sortBy cmp (x # xs) = insertBy cmp x (sortBy cmp xs)"
  by (simp add: sortBy_def)

lemma insertBy_insort_key:
  assumes "\<And>a b. cmp a b \<le> 0 \<longleftrightarrow> key a \<le> key b"
  shows "insertBy cmp x xs = insort_key key x xs"
  by (induction xs) (auto simp: assms)

lemma sortBy_sort_key:
  assumes "\<And>a b. cmp a b \<le> 0 \<longleftrightarrow> key a \<le> key b"
  shows "sortBy cmp xs = sort_key key xs"
  unfolding sortBy_def sort_key_def
  by (induction xs) (auto simp: insertBy_insort_key [OF assms])

lemma cmpFCFS_key: "cmpFCFS a b \<le> 0 \<longleftrightarrow> keyFCFS a \<le> keyFCFS b"
  by (auto simp: cmpFCFS_def keyFCFS_def less_eq_prod_def)

lemma sortBy_cmpFCFS: "sortBy cmpFCFS xs = sort_key keyFCFS xs"
  by (rule sortBy_sort_key) (rule cmpFCFS_key)

lemma sorted_arrival_sortBy: "sorted (map arrivalTime (sortBy cmpFCFS xs))"
proof -
  have "sorted (map keyFCFS (sort_key keyFCFS xs))" by simp
  then have "sorted_wrt (\<lambda>a b. keyFCFS a \<le> keyFCFS b) (sort_key keyFCFS xs)"
    by (simp add: sorted_map)
  then have "sorted_wrt (\<lambda>a b. arrivalTime a \<le> arrivalTime b) (sort_key keyFCFS xs)"
    by (rule sorted_wrt_mono_rel [rotated]) (auto simp: keyFCFS_def less_eq_prod_def)
  then show ?thesis by (simp add: sortBy_cmpFCFS sorted_map)
qed

lemma findIndex_takeWhile:
  "findIndex P xs = (if \<exists>x\<in>set xs. P x then int (length (takeWhile (\<lambda>x. \<not> P x) xs)) else - 1)"
  by (induction xs) (auto simp: Let_def)

lemma splice1_findIndex:
  assumes "\<exists>x\<in>set xs. P x"
  shows "splice1 (findIndex P xs) xs = takeWhile (\<lambda>x. \<not> P x) xs @ tl (dropWhile (\<lambda>x. \<not> P x) xs)"
proof -
  let ?n = "length (takeWhile (\<lambda>x. \<not> P x) xs)"
  have n: "?n < length xs" using assms
  proof -
    have "takeWhile (\<lambda>x. \<not> P x) xs \<noteq> xs" using assms by (auto simp: takeWhile_eq_all_conv)
    then have "?n \<noteq> length xs" by (metis takeWhile_eq_take take_all order_refl)
    moreover have "?n \<le> length xs" by (rule length_takeWhile_le)
    ultimately show ?thesis by simp
  qed
  have "splice1 (findIndex P xs) xs = take ?n xs @ drop (Suc ?n) xs"
    using assms n by (simp add: findIndex_takeWhile splice1_def Let_def min_def)
  also have "take ?n xs = takeWhile (\<lambda>x. \<not> P x) xs"
    by (metis takeWhile_eq_take)
  also have "drop (Suc ?n) xs = tl (dropWhile (\<lambda>x. \<not> P x) xs)"
    by (metis dropWhile_eq_drop drop_Suc tl_drop)
  finally show ?thesis .
qed

lemma length_splice1_findIndex:
  assumes "\<exists>x\<in>set xs. P x"
  shows "Suc (length (splice1 (findIndex P xs) xs)) = length xs"
proof -
  have "dropWhile (\<lambda>x. \<not> P x) xs \<noteq> []" using assms by (simp add: dropWhile_eq_Nil_conv)
  then have "Suc (length (tl (dropWhile (\<lambda>x. \<not> P x) xs))) = length (dropWhile (\<lambda>x. \<not> P x) xs)"
    by simp
  moreover have "length (takeWhile (\<lambda>x. \<not> P x) xs) + length (dropWhile (\<lambda>x. \<not> P x) xs) = length xs"
    by (metis length_append takeWhile_dropWhile_id)
  ultimately show ?thesis by (simp add: splice1_findIndex [OF assms])
qed

lemma set_splice1_findIndex:
  assumes "\<exists>x\<in>set xs. P x"
  shows "set (splice1 (findIndex P xs) xs) \<subseteq> set xs"
proof -
  have "set (takeWhile (\<lambda>x. \<not> P x) xs) \<subseteq> set xs" by (auto dest: set_takeWhileD)
  moreover have "set (tl (dropWhile (\<lambda>x. \<not> P x) xs)) \<subseteq> set xs"
  proof
    fix y assume "y \<in> set (tl (dropWhile (\<lambda>x. \<not> P x) xs))"
    then have "y \<in> set (dropWhile (\<lambda>x. \<not> P x) xs)"
      by (cases "dropWhile (\<lambda>x. \<not> P x) xs") auto
    then show "y \<in> set xs" by (rule set_dropWhileD)
  qed
  ultimately show ?thesis by (simp add: splice1_findIndex [OF assms])
qed

lemma splice1_findIndex_remove1:
  assumes "distinct (map f xs)" "x \<in> set xs"
  shows "splice1 (findIndex (\<lambda>p. f p = f x) xs) xs = remove1 x xs"
proof -
  have ex: "\<exists>y\<in>set xs. f y = f x" using assms by auto
  have "takeWhile (\<lambda>p. f p \<noteq> f x) xs @ tl (dropWhile (\<lambda>p. f p \<noteq> f x) xs) = remove1 x xs"
    using assms
  proof (induction xs)
    case Nil then show ?case by simp
  next
    case (Cons a xs)
    then show ?case by (auto simp: image_iff)
  qed
  then show ?thesis using splice1_findIndex [OF ex] by simp
qed

section \<open>Contiguous timelines\<close>

lemma contiguousFrom_snoc:
  "contiguousFrom t (g @ [s]) \<longleftrightarrow>
     contiguousFrom t g \<and> seg_start s = endFrom t g \<and> seg_start s < seg_end s"
  by (induction g arbitrary: t) (auto simp: endFrom_def)

lemma contiguousFrom_append:
  "contiguousFrom t (g @ h) \<longleftrightarrow> contiguousFrom t g \<and> contiguousFrom (endFrom t g) h"
  by (induction g arbitrary: t) (auto simp: endFrom_def)

lemma endFrom_append: "endFrom t (g @ h) = endFrom (endFrom t g) h"
  by (simp add: endFrom_def)

lemma endFrom_Cons [simp]: "endFrom t (s # g) = endFrom (seg_end s) g"
  by (simp add: endFrom_def)

lemma endFrom_snoc [simp]: "endFrom t (g @ [s]) = seg_end s"
  by (simp add: endFrom_def)

lemma endFrom_Nil [simp]: "endFrom t [] = t"
  by (simp add: endFrom_def)

lemma contiguousFrom_le_end: "contiguousFrom t g \<Longrightarrow> t \<le> endFrom t g"
proof (induction g arbitrary: t)
  case Nil then show ?case by simp
next
  case (Cons s g)
  then have "seg_end s \<le> endFrom (seg_end s) g" by simp
  moreover have "endFrom t (s # g) = endFrom (seg_end s) g" by (simp add: endFrom_def)
  ultimately show ?case using Cons.prems by simp
qed

lemma contiguousFrom_lt_end: "contiguousFrom t g \<Longrightarrow> g \<noteq> [] \<Longrightarrow> t < endFrom t g"
proof (cases g)
  case Nil then show "g \<noteq> [] \<Longrightarrow> ?thesis" by simp
next
  case (Cons s ss)
  assume c: "contiguousFrom t g"
  then have "seg_end s \<le> endFrom (seg_end s) ss" using Cons contiguousFrom_le_end by simp
  moreover have "endFrom t (s # ss) = endFrom (seg_end s) ss" by (simp add: endFrom_def)
  ultimately show ?thesis using c Cons by simp
qed



section \<open>Loops that stop within a bound\<close>

lemma while_option_bounded:
  fixes m :: "'s \<Rightarrow> nat"
  assumes step: "\<And>s. P s \<Longrightarrow> b s \<Longrightarrow> P (c s) \<and> m (c s) < m s"
    and init: "P s"
  shows "\<exists>k\<le>m s. while_option b c s = Some ((c ^^ k) s) \<and> (\<forall>i<k. b ((c ^^ i) s))"
  using init
proof (induction "m s" arbitrary: s rule: less_induct)
  case less
  show ?case
  proof (cases "b s")
    case False
    then have "while_option b c s = Some ((c ^^ 0) s)"
      by (subst while_option_unfold) simp
    then show ?thesis by blast
  next
    case True
    with step less.prems have P: "P (c s)" and m: "m (c s) < m s" by auto
    from less.hyps [OF m P] obtain k where k: "k \<le> m (c s)"
      "while_option b c (c s) = Some ((c ^^ k) (c s))" "\<forall>i<k. b ((c ^^ i) (c s))"
      by blast
    have "while_option b c s = Some ((c ^^ Suc k) s)"
      using True k(2) by (subst while_option_unfold) (simp add: funpow_swap1)
    moreover have "\<forall>i<Suc k. b ((c ^^ i) s)"
    proof (intro allI impI)
      fix i assume "i < Suc k"
      then show "b ((c ^^ i) s)" using True k(3) by (cases i) (auto simp: funpow_swap1)
    qed
    moreover have "Suc k \<le> m s" using k(1) m by simp
    ultimately show ?thesis by blast
  qed
qed

lemma while_option_inv:
  assumes "P s" "while_option b c s = Some t" "\<And>s. P s \<Longrightarrow> b s \<Longrightarrow> P (c s)"
  shows "P t"
  using assms(3) assms(2) assms(1) by (rule while_option_rule)

section \<open>The timeline and the work of first come first served\<close>

lemma busyOf_snoc_idle [simp]: "busyOf x (g @ [idleSegment a b]) = busyOf x g"
  by (simp add: busyOf_def idleSegment_def)

lemma busyOf_snoc_run [simp]:
  "busyOf x (g @ [runSegment y a b]) = busyOf x g + (if y = x then b - a else 0)"
  by (simp add: busyOf_def runSegment_def duration_def)

lemma busyOf_Nil [simp]: "busyOf x [] = 0"
  by (simp add: busyOf_def)

lemma timelineInv_idle:
  "timelineInv s \<Longrightarrow> currentTime s < e \<Longrightarrow>
   timelineInv (s\<lparr>gantt := gantt s @ [idleSegment (currentTime s) e], currentTime := e\<rparr>)"
  by (simp add: timelineInv_def contiguousFrom_snoc idleSegment_def)

lemma timelineInv_run:
  "timelineInv s \<Longrightarrow> 0 < d \<Longrightarrow>
   timelineInv (s\<lparr>gantt := gantt s @ [runSegment x (currentTime s) (currentTime s + d)],
                  currentTime := currentTime s + d\<rparr>)"
  by (simp add: timelineInv_def contiguousFrom_snoc runSegment_def)

lemma timelineInv_fcfsStep:
  "timelineInv s \<Longrightarrow> 0 < burstTime p \<Longrightarrow> timelineInv (fcfsStep p s)"
  by (auto simp: fcfsStep_def Let_def timelineInv_def contiguousFrom_append endFrom_append
        idleSegment_def runSegment_def)

lemma timelineInv_fold_fcfsStep:
  "timelineInv s \<Longrightarrow> \<forall>p\<in>set xs. 0 < burstTime p \<Longrightarrow> timelineInv (fold fcfsStep xs s)"
  by (induction xs arbitrary: s) (auto simp: timelineInv_fcfsStep)

lemma busyOf_fcfsStep:
  "busyOf x (gantt (fcfsStep p s)) = busyOf x (gantt s) + (if pid p = x then burstTime p else 0)"
  by (simp add: fcfsStep_def Let_def)

lemma busyOf_fold_fcfsStep:
  "busyOf x (gantt (fold fcfsStep xs s)) = busyOf x (gantt s) + burstOf x xs"
  by (induction xs arbitrary: s) (auto simp: busyOf_fcfsStep burstOf_def)

lemma burstOf_mset: "mset xs = mset ys \<Longrightarrow> burstOf x xs = burstOf x ys"
proof -
  assume a: "mset xs = mset ys"
  have "\<And>zs :: 'a process_scheme list. burstOf x zs =
      sum_mset (image_mset burstTime (filter_mset (\<lambda>p. pid p = x) (mset zs)))"
    unfolding burstOf_def by (metis mset_filter mset_map sum_mset_sum_list)
  then show ?thesis using a by simp
qed


lemma burstOf_remove1:
  "p \<in> set ps \<Longrightarrow> burstOf x (remove1 p ps) + (if pid p = x then burstTime p else 0) = burstOf x ps"
  by (induction ps) (auto simp: burstOf_def)

section \<open>The loop of shortest job first and of priority scheduling\<close>

lemma npBody_idle:
  assumes "filter (\<lambda>p. arrivalTime p \<le> currentTime s) (remaining s) = []"
  shows "npBody cmp s =
    s\<lparr>gantt := gantt s @ [idleSegment (currentTime s) (Min (set (map arrivalTime (remaining s))))],
      currentTime := Min (set (map arrivalTime (remaining s)))\<rparr>"
  using assms by (simp add: npBody_def Let_def)

lemma npBody_run:
  assumes "filter (\<lambda>p. arrivalTime p \<le> currentTime s) (remaining s) \<noteq> []"
  shows "\<exists>sel. sel = hd (sortBy cmp (filter (\<lambda>p. arrivalTime p \<le> currentTime s) (remaining s))) \<and>
     sel \<in> set (remaining s) \<and> arrivalTime sel \<le> currentTime s \<and>
     npBody cmp s =
       s\<lparr>gantt := gantt s @ [runSegment (pid sel) (currentTime s) (currentTime s + burstTime sel)],
         currentTime := currentTime s + burstTime sel,
         remaining := splice1 (findIndex (\<lambda>p. pid p = pid sel) (remaining s)) (remaining s)\<rparr>"
proof -
  let ?av = "filter (\<lambda>p. arrivalTime p \<le> currentTime s) (remaining s)"
  have "hd (sortBy cmp ?av) \<in> set ?av" using assms by (rule hd_sortBy_in)
  then show ?thesis using assms by (simp add: npBody_def Let_def)
qed

lemma Min_arrival_gt:
  assumes "rs \<noteq> []" "filter (\<lambda>p. arrivalTime p \<le> t) rs = []"
  shows "t < Min (set (map arrivalTime rs))"
proof -
  have "\<forall>a\<in>set (map arrivalTime rs). t < a"
    using assms(2) by (auto simp: filter_empty_conv)
  then show ?thesis using assms(1) by (subst Min_gr_iff) auto
qed

lemma Min_arrival_in:
  assumes "rs \<noteq> []"
  shows "\<exists>p\<in>set rs. arrivalTime p = Min (set (map arrivalTime rs))"
proof -
  have "Min (set (map arrivalTime rs)) \<in> set (map arrivalTime rs)"
    using assms by (intro Min_in) auto
  then show ?thesis by auto
qed

lemma npInv1_step:
  assumes "npInv1 s" "npCond s"
  shows "npInv1 (npBody cmp s)"
proof (cases "filter (\<lambda>p. arrivalTime p \<le> currentTime s) (remaining s) = []")
  case True
  have ne: "remaining s \<noteq> []" using assms(2) by (simp add: npCond_def)
  have "currentTime s < Min (set (map arrivalTime (remaining s)))"
    using ne True by (rule Min_arrival_gt)
  then have "timelineInv (npBody cmp s)"
    using assms(1) unfolding npBody_idle [OF True] npInv1_def by (intro timelineInv_idle) auto
  moreover have "remaining (npBody cmp s) = remaining s" by (simp add: npBody_idle [OF True])
  ultimately show ?thesis using assms(1) by (simp add: npInv1_def)
next
  case False
  from npBody_run [OF False, of cmp] obtain sel where sel: "sel \<in> set (remaining s)"
    and body: "npBody cmp s =
       s\<lparr>gantt := gantt s @ [runSegment (pid sel) (currentTime s) (currentTime s + burstTime sel)],
         currentTime := currentTime s + burstTime sel,
         remaining := splice1 (findIndex (\<lambda>p. pid p = pid sel) (remaining s)) (remaining s)\<rparr>"
    by blast
  have b: "0 < burstTime sel" using sel assms(1) by (simp add: npInv1_def)
  have "timelineInv (s\<lparr>gantt := gantt s @ [runSegment (pid sel) (currentTime s) (currentTime s + burstTime sel)],
         currentTime := currentTime s + burstTime sel\<rparr>)"
    using assms(1) b unfolding npInv1_def by (intro timelineInv_run) auto
  then have "timelineInv (npBody cmp s)" by (simp add: body timelineInv_def)
  moreover have "set (remaining (npBody cmp s)) \<subseteq> set (remaining s)"
    using sel by (simp add: body) (rule set_splice1_findIndex, auto)
  ultimately show ?thesis using assms(1) by (auto simp: npInv1_def)
qed

lemma distinct_map_remove1: "distinct (map f xs) \<Longrightarrow> distinct (map f (remove1 x xs))"
proof (induction xs)
  case Nil then show ?case by simp
next
  case (Cons a xs)
  have "set (remove1 x xs) \<subseteq> set xs" by (rule set_remove1_subset)
  then show ?case using Cons by auto
qed

lemma npInv2_step:
  assumes "npInv2 ps s" "npCond s"
  shows "npInv2 ps (npBody cmp s)"
proof (cases "filter (\<lambda>p. arrivalTime p \<le> currentTime s) (remaining s) = []")
  case True
  then show ?thesis using assms(1) by (simp add: npBody_idle [OF True] npInv2_def)
next
  case False
  from npBody_run [OF False, of cmp] obtain sel where sel: "sel \<in> set (remaining s)"
    and body: "npBody cmp s =
       s\<lparr>gantt := gantt s @ [runSegment (pid sel) (currentTime s) (currentTime s + burstTime sel)],
         currentTime := currentTime s + burstTime sel,
         remaining := splice1 (findIndex (\<lambda>p. pid p = pid sel) (remaining s)) (remaining s)\<rparr>"
    by blast
  have d: "distinct (map pid (remaining s))" using assms(1) by (simp add: npInv2_def)
  have rem: "remaining (npBody cmp s) = remove1 sel (remaining s)"
    using splice1_findIndex_remove1 [OF d sel] by (simp add: body)
  have "busyOf x (gantt (npBody cmp s)) + burstOf x (remaining (npBody cmp s)) = burstOf x ps" for x
  proof -
    have "busyOf x (gantt (npBody cmp s)) = busyOf x (gantt s) + (if pid sel = x then burstTime sel else 0)"
      by (simp add: body)
    moreover have "burstOf x (remove1 sel (remaining s)) + (if pid sel = x then burstTime sel else 0)
        = burstOf x (remaining s)"
      using sel by (rule burstOf_remove1)
    moreover have "busyOf x (gantt s) + burstOf x (remaining s) = burstOf x ps"
      using assms(1) by (simp add: npInv2_def)
    ultimately show ?thesis using rem by simp
  qed
  then show ?thesis using d rem by (simp add: npInv2_def distinct_map_remove1)
qed

lemma npMeasure_step:
  assumes "npCond s"
  shows "npMeasure (npBody cmp s) < npMeasure s"
proof (cases "filter (\<lambda>p. arrivalTime p \<le> currentTime s) (remaining s) = []")
  case True
  have ne: "remaining s \<noteq> []" using assms by (simp add: npCond_def)
  have no: "\<not> (\<exists>p\<in>set (remaining s). arrivalTime p \<le> currentTime s)"
    using True by (auto simp: filter_empty_conv)
  have "\<exists>p\<in>set (remaining s). arrivalTime p \<le> Min (set (map arrivalTime (remaining s)))"
    using Min_arrival_in [OF ne] by (metis order_refl)
  then have "npMeasure (npBody cmp s) = 2 * length (remaining s) - 1"
    by (simp add: npBody_idle [OF True] npMeasure_def)
  moreover have "npMeasure s = 2 * length (remaining s)" using no by (simp add: npMeasure_def)
  moreover have "0 < length (remaining s)" using ne by simp
  ultimately show ?thesis by simp
next
  case False
  from npBody_run [OF False, of cmp] obtain sel where sel: "sel \<in> set (remaining s)"
    and arr: "arrivalTime sel \<le> currentTime s"
    and body: "npBody cmp s =
       s\<lparr>gantt := gantt s @ [runSegment (pid sel) (currentTime s) (currentTime s + burstTime sel)],
         currentTime := currentTime s + burstTime sel,
         remaining := splice1 (findIndex (\<lambda>p. pid p = pid sel) (remaining s)) (remaining s)\<rparr>"
    by blast
  have "Suc (length (remaining (npBody cmp s))) = length (remaining s)"
    using sel by (simp add: body) (rule length_splice1_findIndex, auto)
  moreover have "npMeasure (npBody cmp s) \<le> 2 * length (remaining (npBody cmp s))"
    by (simp add: npMeasure_def)
  moreover have "npMeasure s = 2 * length (remaining s) - 1"
    using sel arr by (auto simp: npMeasure_def)
  ultimately show ?thesis by simp
qed

lemma npLoop_terminates:
  "\<exists>k\<le>2 * length ps. npLoop cmp ps = Some ((npBody cmp ^^ k) (npInit ps)) \<and>
      (\<forall>i<k. npCond ((npBody cmp ^^ i) (npInit ps)))"
proof -
  have "\<exists>k\<le>npMeasure (npInit ps).
      while_option npCond (npBody cmp) (npInit ps) = Some ((npBody cmp ^^ k) (npInit ps)) \<and>
      (\<forall>i<k. npCond ((npBody cmp ^^ i) (npInit ps)))"
    by (rule while_option_bounded [where P = "\<lambda>s. True"]) (simp_all add: npMeasure_step)
  moreover have "npMeasure (npInit ps) \<le> 2 * length ps" by (simp add: npMeasure_def npInit_def)
  ultimately show ?thesis unfolding npLoop_def by (meson le_trans)
qed

lemma npLoop_result:
  assumes "\<forall>p\<in>set ps. 0 < burstTime p"
  shows "\<exists>t. npLoop cmp ps = Some t \<and> contiguousFrom 0 (gantt t) \<and> (ps = [] \<longrightarrow> gantt t = [])"
proof -
  from npLoop_terminates [of ps cmp] obtain t where t: "npLoop cmp ps = Some t" by blast
  have "npInv1 (npInit ps)" using assms by (simp add: npInv1_def npInit_def timelineInv_def)
  then have "npInv1 t"
    using t npInv1_step unfolding npLoop_def by (rule while_option_inv)
  moreover have "ps = [] \<longrightarrow> gantt t = []"
    using t unfolding npLoop_def by (subst (asm) while_option_unfold) (auto simp: npCond_def npInit_def)
  ultimately show ?thesis using t by (auto simp: npInv1_def timelineInv_def)
qed

lemma npLoop_work:
  assumes "distinct (map pid ps)" "npLoop cmp ps = Some t"
  shows "busyOf x (gantt t) = burstOf x ps"
proof -
  have "npInv2 ps (npInit ps)" using assms(1) by (simp add: npInv2_def npInit_def)
  then have "npInv2 ps t"
    using assms(2) npInv2_step unfolding npLoop_def by (rule while_option_inv)
  moreover have "remaining t = []"
    using while_option_stop [OF assms(2) [unfolded npLoop_def]] by (simp add: npCond_def)
  ultimately show ?thesis by (simp add: npInv2_def burstOf_def)
qed

section \<open>The loop of round robin\<close>

lemma enqueueArrivals_eq:
  "enqueueArrivals allProcesses u s =
     s\<lparr>readyQueue := readyQueue s @ arrivedBy u allProcesses s,
       processIndex := processIndex s + length (arrivedBy u allProcesses s)\<rparr>"
proof (induction allProcesses u s rule: enqueueArrivals.induct)
  case (1 allProcesses u s)
  let ?i = "processIndex s"
  show ?case
  proof (cases "?i < length allProcesses \<and> arrivalTime (allProcesses ! ?i) \<le> u")
    case True
    let ?s' = "s\<lparr>readyQueue := readyQueue s @ [allProcesses ! ?i], processIndex := Suc ?i\<rparr>"
    have d: "drop ?i allProcesses = allProcesses ! ?i # drop (Suc ?i) allProcesses"
      using True by (simp add: Cons_nth_drop_Suc)
    have a: "arrivedBy u allProcesses s = allProcesses ! ?i # arrivedBy u allProcesses ?s'"
      using True by (simp add: arrivedBy_def d)
    have "enqueueArrivals allProcesses u s = enqueueArrivals allProcesses u ?s'"
      using True by (subst enqueueArrivals.simps) simp
    also have "\<dots> = ?s'\<lparr>readyQueue := readyQueue ?s' @ arrivedBy u allProcesses ?s',
       processIndex := processIndex ?s' + length (arrivedBy u allProcesses ?s')\<rparr>"
      using True by (intro "1.IH") simp
    also have "\<dots> = s\<lparr>readyQueue := readyQueue s @ arrivedBy u allProcesses s,
       processIndex := processIndex s + length (arrivedBy u allProcesses s)\<rparr>"
      by (simp add: a)
    finally show ?thesis .
  next
    case False
    have "arrivedBy u allProcesses s = []"
    proof (cases "?i < length allProcesses")
      case True
      then have "drop ?i allProcesses = allProcesses ! ?i # drop (Suc ?i) allProcesses"
        by (simp add: Cons_nth_drop_Suc)
      then show ?thesis using False True by (simp add: arrivedBy_def)
    next
      case False
      then show ?thesis by (simp add: arrivedBy_def)
    qed
    moreover have "enqueueArrivals allProcesses u s = s"
      using False by (subst enqueueArrivals.simps) auto
    ultimately show ?thesis by simp
  qed
qed

lemma rrBody_idle:
  assumes "readyQueue s = []"
  shows "rrBody quantum allProcesses s =
    (let a = arrivalTime (allProcesses ! processIndex s)
     in s\<lparr>gantt := gantt s @ [idleSegment (currentTime s) a], currentTime := a,
          readyQueue := arrivedBy a allProcesses s,
          processIndex := processIndex s + length (arrivedBy a allProcesses s)\<rparr>)"
  using assms by (simp add: rrBody_def Let_def enqueueArrivals_eq arrivedBy_def)

lemma rrBody_run:
  assumes "readyQueue s \<noteq> []"
  shows "rrBody quantum allProcesses s =
    (let current = hd (readyQueue s);
         execTime = min quantum (remainingBurst current);
         t = currentTime s + execTime
     in s\<lparr>gantt := gantt s @ [runSegment (pid current) (currentTime s) t], currentTime := t,
          readyQueue := tl (readyQueue s) @ arrivedBy t allProcesses s @
            (if remainingBurst current - execTime > 0
             then [current\<lparr>remainingBurst := remainingBurst current - execTime\<rparr>] else []),
          processIndex := processIndex s + length (arrivedBy t allProcesses s)\<rparr>)"
  using assms by (simp add: rrBody_def Let_def enqueueArrivals_eq arrivedBy_def)

lemma drop_arrivedBy:
  "drop (processIndex s + length (arrivedBy u allProcesses s)) allProcesses =
     dropWhile (\<lambda>p. arrivalTime p \<le> u) (drop (processIndex s) allProcesses)"
  by (simp add: arrivedBy_def dropWhile_eq_drop add.commute)

lemma arrivedBy_split:
  "drop (processIndex s) allProcesses =
     arrivedBy u allProcesses s @
     drop (processIndex s + length (arrivedBy u allProcesses s)) allProcesses"
proof -
  have "drop (processIndex s) allProcesses =
      takeWhile (\<lambda>p. arrivalTime p \<le> u) (drop (processIndex s) allProcesses) @
      dropWhile (\<lambda>p. arrivalTime p \<le> u) (drop (processIndex s) allProcesses)"
    by simp
  then show ?thesis by (simp only: drop_arrivedBy) (simp only: arrivedBy_def)
qed

lemma sorted_dropWhile_gt:
  "sorted (map arrivalTime xs) \<Longrightarrow> \<forall>p\<in>set (dropWhile (\<lambda>p. arrivalTime p \<le> u) xs). u < arrivalTime p"
  by (induction xs) auto

lemma sorted_takeWhile_filter:
  "sorted (map arrivalTime xs) \<Longrightarrow>
     takeWhile (\<lambda>p. arrivalTime p \<le> u) xs = filter (\<lambda>p. arrivalTime p \<le> u) xs"
proof (induction xs)
  case Nil then show ?case by simp
next
  case (Cons a xs)
  show ?case
  proof (cases "arrivalTime a \<le> u")
    case True then show ?thesis using Cons by simp
  next
    case False
    then have "\<forall>x\<in>set xs. \<not> arrivalTime x \<le> u" using Cons.prems by auto
    then have "filter (\<lambda>p. arrivalTime p \<le> u) xs = []" by (simp add: filter_empty_conv)
    then show ?thesis using False by simp
  qed
qed

lemma sorted_map_drop: "sorted (map f xs) \<Longrightarrow> sorted (map f (drop n xs))"
  by (simp add: drop_map [symmetric] sorted_wrt_drop)

lemma set_arrivedBy: "set (arrivedBy u allProcesses s) \<subseteq> set allProcesses"
  unfolding arrivedBy_def by (meson set_takeWhileD in_set_dropD subsetI)

lemma pending_gt:
  assumes "sorted (map arrivalTime allProcesses)"
  shows "\<forall>p\<in>set (drop (processIndex s + length (arrivedBy u allProcesses s)) allProcesses).
           u < arrivalTime p"
  unfolding drop_arrivedBy
  by (rule sorted_dropWhile_gt) (rule sorted_map_drop [OF assms])

lemma rrInv_step:
  assumes srt: "sorted (map arrivalTime allProcesses)"
    and pos: "\<forall>p\<in>set allProcesses. 0 < remainingBurst p"
    and q: "1 \<le> quantum"
    and inv: "rrInv allProcesses s" and cond: "rrCond allProcesses s"
  shows "rrInv allProcesses (rrBody quantum allProcesses s)"
proof (cases "readyQueue s = []")
  case True
  let ?i = "processIndex s"
  let ?a = "arrivalTime (allProcesses ! ?i)"
  have i: "?i < length allProcesses" using cond True by (simp add: rrCond_def)
  then have "allProcesses ! ?i \<in> set (drop ?i allProcesses)"
    by (metis Cons_nth_drop_Suc list.set_intros(1))
  then have lt: "currentTime s < ?a" using inv by (simp add: rrInv_def)
  have "timelineInv (s\<lparr>gantt := gantt s @ [idleSegment (currentTime s) ?a], currentTime := ?a\<rparr>)"
    using inv lt unfolding rrInv_def by (intro timelineInv_idle) auto
  then have "timelineInv (rrBody quantum allProcesses s)"
    by (simp add: rrBody_idle [OF True] Let_def timelineInv_def)
  moreover have "\<forall>p\<in>set (readyQueue (rrBody quantum allProcesses s)). 0 < remainingBurst p"
    using pos set_arrivedBy [of ?a allProcesses s] by (auto simp: rrBody_idle [OF True] Let_def)
  moreover have "\<forall>p\<in>set (drop (processIndex (rrBody quantum allProcesses s)) allProcesses).
      currentTime (rrBody quantum allProcesses s) < arrivalTime p"
    using pending_gt [OF srt, of s ?a] by (simp add: rrBody_idle [OF True] Let_def)
  ultimately show ?thesis by (simp add: rrInv_def)
next
  case False
  let ?cur = "hd (readyQueue s)"
  let ?e = "min quantum (remainingBurst ?cur)"
  let ?t = "currentTime s + ?e"
  have cur: "0 < remainingBurst ?cur" using inv False by (simp add: rrInv_def)
  then have e: "0 < ?e" using q by simp
  have "timelineInv (s\<lparr>gantt := gantt s @ [runSegment (pid ?cur) (currentTime s) ?t], currentTime := ?t\<rparr>)"
    using inv e unfolding rrInv_def by (intro timelineInv_run) auto
  then have "timelineInv (rrBody quantum allProcesses s)"
    by (simp add: rrBody_run [OF False] Let_def timelineInv_def)
  moreover have "\<forall>p\<in>set (readyQueue (rrBody quantum allProcesses s)). 0 < remainingBurst p"
  proof -
    have "\<forall>p\<in>set (tl (readyQueue s)). 0 < remainingBurst p"
      using inv False by (metis list.set_sel(2) rrInv_def)
    then show ?thesis
      using pos set_arrivedBy [of ?t allProcesses s]
      by (auto simp: rrBody_run [OF False] Let_def)
  qed
  moreover have "\<forall>p\<in>set (drop (processIndex (rrBody quantum allProcesses s)) allProcesses).
      currentTime (rrBody quantum allProcesses s) < arrivalTime p"
    using pending_gt [OF srt, of s ?t] by (simp add: rrBody_run [OF False] Let_def)
  ultimately show ?thesis by (simp add: rrInv_def)
qed

lemma remOf_append [simp]: "remOf x (xs @ ys) = remOf x xs + remOf x ys"
  by (simp add: remOf_def)

lemma remOf_Nil [simp]: "remOf x [] = 0"
  by (simp add: remOf_def)

lemma remOf_Cons [simp]:
  "remOf x (p # ps) = (if pid p = x then remainingBurst p else 0) + remOf x ps"
  by (simp add: remOf_def)

lemma remOf_pending:
  "remOf x (drop (processIndex s) allProcesses) =
     remOf x (arrivedBy u allProcesses s) +
     remOf x (drop (processIndex s + length (arrivedBy u allProcesses s)) allProcesses)"
  by (subst arrivedBy_split [of s allProcesses u]) (simp only: remOf_append)

lemma rrBody_run_explicit:
  assumes "readyQueue s \<noteq> []"
    and "e = min quantum (remainingBurst (hd (readyQueue s)))"
    and "tw = arrivedBy (currentTime s + e) allProcesses s"
  shows "rrBody quantum allProcesses s =
     s\<lparr>gantt := gantt s @
         [runSegment (pid (hd (readyQueue s))) (currentTime s) (currentTime s + e)],
       currentTime := currentTime s + e,
       readyQueue := tl (readyQueue s) @ tw @
         (if remainingBurst (hd (readyQueue s)) - e > 0
          then [(hd (readyQueue s))\<lparr>remainingBurst := remainingBurst (hd (readyQueue s)) - e\<rparr>]
          else []),
       processIndex := processIndex s + length tw\<rparr>"
  unfolding assms(2,3) using rrBody_run [OF assms(1), of quantum allProcesses]
  by (simp only: Let_def)

lemma rrWork_step:
  assumes "rrWork allProcesses s"
  shows "rrWork allProcesses (rrBody quantum allProcesses s)"
proof (cases "readyQueue s = []")
  case True
  let ?a = "arrivalTime (allProcesses ! processIndex s)"
  have "busyOf x (gantt (rrBody quantum allProcesses s)) +
      remOf x (readyQueue (rrBody quantum allProcesses s)) +
      remOf x (drop (processIndex (rrBody quantum allProcesses s)) allProcesses) =
      remOf x allProcesses" for x
  proof -
    have "busyOf x (gantt s) + remOf x (readyQueue s) +
        remOf x (drop (processIndex s) allProcesses) = remOf x allProcesses"
      using assms by (simp add: rrWork_def)
    then show ?thesis
      using remOf_pending [of x s allProcesses ?a] True
      by (simp add: rrBody_idle [OF True] Let_def)
  qed
  then show ?thesis by (simp add: rrWork_def)
next
  case False
  define cur where "cur = hd (readyQueue s)"
  define e where "e = min quantum (remainingBurst (hd (readyQueue s)))"
  define tw where "tw = arrivedBy (currentTime s + e) allProcesses s"
  note body = rrBody_run_explicit [OF False e_def tw_def, folded cur_def]
  have q: "readyQueue s = cur # tl (readyQueue s)" using False by (simp add: cur_def)
  have ele: "e \<le> remainingBurst cur" by (simp add: e_def cur_def)
  have "busyOf x (gantt (rrBody quantum allProcesses s)) +
      remOf x (readyQueue (rrBody quantum allProcesses s)) +
      remOf x (drop (processIndex (rrBody quantum allProcesses s)) allProcesses) =
      remOf x allProcesses" for x
  proof -
    have a: "busyOf x (gantt s) + remOf x (readyQueue s) +
        remOf x (drop (processIndex s) allProcesses) = remOf x allProcesses"
      using assms by (simp add: rrWork_def)
    have b: "remOf x (readyQueue s) =
        (if pid cur = x then remainingBurst cur else 0) + remOf x (tl (readyQueue s))"
      by (subst q) simp
    have c: "busyOf x (gantt (rrBody quantum allProcesses s)) =
        busyOf x (gantt s) + (if pid cur = x then e else 0)"
      by (simp add: body)
    have d: "remOf x (readyQueue (rrBody quantum allProcesses s)) =
        remOf x (tl (readyQueue s)) + remOf x tw +
        (if pid cur = x then remainingBurst cur - e else 0)"
      using ele by (simp add: body)
    have f: "remOf x (drop (processIndex (rrBody quantum allProcesses s)) allProcesses) =
        remOf x (drop (processIndex s + length tw) allProcesses)"
      by (simp add: body)
    have g: "remOf x (drop (processIndex s) allProcesses) =
        remOf x tw + remOf x (drop (processIndex s + length tw) allProcesses)"
      unfolding tw_def by (rule remOf_pending)
    show ?thesis unfolding c d f using a b g by (simp split: if_splits)
  qed
  then show ?thesis by (simp add: rrWork_def)
qed

lemma sum_pending:
  "sum_list (map remainingBurst (drop (processIndex s) allProcesses)) =
     sum_list (map remainingBurst (arrivedBy u allProcesses s)) +
     sum_list (map remainingBurst
       (drop (processIndex s + length (arrivedBy u allProcesses s)) allProcesses))"
  by (subst arrivedBy_split [of s allProcesses u]) (simp only: map_append sum_list_append)

lemma rrMeasure_step:
  assumes q: "1 \<le> quantum"
    and inv: "rrInv allProcesses s" and cond: "rrCond allProcesses s"
  shows "rrMeasure allProcesses (rrBody quantum allProcesses s) < rrMeasure allProcesses s"
proof (cases "readyQueue s = []")
  case True
  let ?i = "processIndex s"
  let ?a = "arrivalTime (allProcesses ! ?i)"
  have i: "?i < length allProcesses" using cond True by (simp add: rrCond_def)
  then have d: "drop ?i allProcesses = allProcesses ! ?i # drop (Suc ?i) allProcesses"
    by (simp add: Cons_nth_drop_Suc)
  have "arrivedBy ?a allProcesses s \<noteq> []" by (simp add: arrivedBy_def d)
  then have len: "0 < length (arrivedBy ?a allProcesses s)" by simp
  have le: "?i + length (arrivedBy ?a allProcesses s) \<le> length allProcesses"
    unfolding arrivedBy_def using length_takeWhile_le [of _ "drop ?i allProcesses"] i
    by (metis add.commute le_diff_conv length_drop less_or_eq_imp_le nat_le_linear order_trans le_add_diff_inverse)
  show ?thesis
    using sum_pending [of s allProcesses ?a] len le True
    by (simp add: rrMeasure_def rrBody_idle [OF True] Let_def)
next
  case False
  let ?cur = "hd (readyQueue s)"
  let ?e = "min quantum (remainingBurst ?cur)"
  let ?t = "currentTime s + ?e"
  have qq: "readyQueue s = ?cur # tl (readyQueue s)" using False by simp
  have cur: "0 < remainingBurst ?cur" using inv False by (simp add: rrInv_def)
  then have e: "0 < ?e" using q by simp
  have s1: "sum_list (map remainingBurst (readyQueue s)) =
      remainingBurst ?cur + sum_list (map remainingBurst (tl (readyQueue s)))"
    by (subst qq) simp
  have lenle: "int (length allProcesses - (processIndex s + length (arrivedBy ?t allProcesses s)))
      \<le> int (length allProcesses - processIndex s)"
    by simp
  have "rrMeasure allProcesses (rrBody quantum allProcesses s) =
      sum_list (map remainingBurst (tl (readyQueue s))) +
      sum_list (map remainingBurst (arrivedBy ?t allProcesses s)) +
      (remainingBurst ?cur - ?e) +
      sum_list (map remainingBurst
        (drop (processIndex s + length (arrivedBy ?t allProcesses s)) allProcesses)) +
      int (length allProcesses - (processIndex s + length (arrivedBy ?t allProcesses s)))"
    by (simp add: rrMeasure_def rrBody_run [OF False] Let_def min_def)
  moreover have "rrMeasure allProcesses s =
      remainingBurst ?cur + sum_list (map remainingBurst (tl (readyQueue s))) +
      (sum_list (map remainingBurst (arrivedBy ?t allProcesses s)) +
       sum_list (map remainingBurst
        (drop (processIndex s + length (arrivedBy ?t allProcesses s)) allProcesses))) +
      int (length allProcesses - processIndex s)"
    unfolding rrMeasure_def s1 sum_pending [of s allProcesses ?t] ..
  ultimately show ?thesis using e lenle by linarith
qed

lemma rrMeasure_nonneg:
  assumes pos: "\<forall>p\<in>set allProcesses. 0 < remainingBurst p"
    and inv: "rrInv allProcesses s"
  shows "0 \<le> rrMeasure allProcesses s"
proof -
  have "0 \<le> sum_list (map remainingBurst (readyQueue s))"
    using inv by (intro sum_list_nonneg) (auto simp: rrInv_def less_imp_le)
  moreover have "0 \<le> sum_list (map remainingBurst (drop (processIndex s) allProcesses))"
    using pos by (intro sum_list_nonneg) (auto dest!: in_set_dropD simp: less_imp_le)
  ultimately show ?thesis by (simp add: rrMeasure_def)
qed

lemma mset_rrAll: "mset (rrAll ps) = mset (map toRR ps)"
  by (simp add: rrAll_def mset_sortBy)

lemma set_rrAll: "set (rrAll ps) = toRR ` set ps"
  by (simp add: rrAll_def set_sortBy)

lemma length_rrAll: "length (rrAll ps) = length ps"
  by (simp add: rrAll_def length_sortBy)

lemma sorted_rrAll: "sorted (map arrivalTime (rrAll ps))"
  unfolding rrAll_def by (rule sorted_arrival_sortBy)

lemma pos_rrAll: "\<forall>p\<in>set ps. 0 < burstTime p \<Longrightarrow> \<forall>p\<in>set (rrAll ps). 0 < remainingBurst p"
  by (auto simp: set_rrAll toRR_def)

lemma remOf_mset: "mset xs = mset ys \<Longrightarrow> remOf x xs = remOf x ys"
proof -
  assume a: "mset xs = mset ys"
  have "\<And>zs. remOf x zs =
      sum_mset (image_mset remainingBurst (filter_mset (\<lambda>p. pid p = x) (mset zs)))"
    unfolding remOf_def by (metis mset_filter mset_map sum_mset_sum_list)
  then show ?thesis using a by simp
qed

lemma remOf_map_toRR: "remOf x (map toRR ps) = burstOf x ps"
  by (induction ps) (auto simp: burstOf_def toRR_def)

lemma remOf_rrAll: "remOf x (rrAll ps) = burstOf x ps"
  using remOf_mset [OF mset_rrAll] remOf_map_toRR by simp

lemma sum_rem_rrAll: "sum_list (map remainingBurst (rrAll ps)) = sum_list (map burstTime ps)"
proof -
  have "sum_list (map remainingBurst (rrAll ps)) = sum_mset (image_mset remainingBurst (mset (rrAll ps)))"
    by (metis mset_map sum_mset_sum_list)
  also have "\<dots> = sum_mset (image_mset remainingBurst (mset (map toRR ps)))"
    by (simp only: mset_rrAll)
  also have "\<dots> = sum_list (map remainingBurst (map toRR ps))"
    by (metis mset_map sum_mset_sum_list)
  also have "\<dots> = sum_list (map burstTime ps)"
    by (induction ps) (auto simp: toRR_def)
  finally show ?thesis .
qed

lemma rrInit_eq:
  "rrInit allProcesses =
     \<lparr>gantt = [], currentTime = 0,
      readyQueue = takeWhile (\<lambda>p. arrivalTime p \<le> 0) allProcesses,
      processIndex = length (takeWhile (\<lambda>p. arrivalTime p \<le> 0) allProcesses)\<rparr>"
  by (simp add: rrInit_def enqueueArrivals_eq arrivedBy_def)

lemma rrInv_init:
  assumes "sorted (map arrivalTime allProcesses)" "\<forall>p\<in>set allProcesses. 0 < remainingBurst p"
  shows "rrInv allProcesses (rrInit allProcesses)"
proof -
  have "\<forall>p\<in>set (dropWhile (\<lambda>p. arrivalTime p \<le> 0) allProcesses). 0 < arrivalTime p"
    using assms(1) by (rule sorted_dropWhile_gt)
  moreover have "\<forall>p\<in>set (takeWhile (\<lambda>p. arrivalTime p \<le> 0) allProcesses). 0 < remainingBurst p"
    using assms(2) by (auto dest: set_takeWhileD)
  ultimately show ?thesis
    by (simp add: rrInv_def rrInit_eq timelineInv_def dropWhile_eq_drop [symmetric])
qed

lemma rrWork_init: "rrWork allProcesses (rrInit allProcesses)"
proof -
  have "remOf x (takeWhile (\<lambda>p. arrivalTime p \<le> 0) allProcesses) +
      remOf x (dropWhile (\<lambda>p. arrivalTime p \<le> 0) allProcesses) = remOf x allProcesses" for x
    by (metis remOf_append takeWhile_dropWhile_id)
  then show ?thesis by (simp add: rrWork_def rrInit_eq dropWhile_eq_drop [symmetric])
qed

lemma rrMeasure_init:
  "rrMeasure allProcesses (rrInit allProcesses) \<le>
     sum_list (map remainingBurst allProcesses) + int (length allProcesses)"
proof -
  have "sum_list (map remainingBurst (takeWhile (\<lambda>p. arrivalTime p \<le> 0) allProcesses)) +
      sum_list (map remainingBurst (dropWhile (\<lambda>p. arrivalTime p \<le> 0) allProcesses)) =
      sum_list (map remainingBurst allProcesses)"
    by (metis map_append sum_list_append takeWhile_dropWhile_id)
  then show ?thesis by (simp add: rrMeasure_def rrInit_eq dropWhile_eq_drop [symmetric])
qed

lemma rrLoop_terminates:
  assumes pos: "\<forall>p\<in>set ps. 0 < burstTime p" and q: "1 \<le> quantum"
  shows "\<exists>k\<le>nat (sum_list (map burstTime ps) + int (length ps)).
      rrLoop ps quantum = Some ((rrBody quantum (rrAll ps) ^^ k) (rrInit (rrAll ps))) \<and>
      (\<forall>i<k. rrCond (rrAll ps) ((rrBody quantum (rrAll ps) ^^ i) (rrInit (rrAll ps))))"
proof -
  let ?all = "rrAll ps"
  let ?m = "\<lambda>s. nat (rrMeasure ?all s)"
  note srt = sorted_rrAll [of ps] and pos' = pos_rrAll [OF pos]
  have step: "rrInv ?all (rrBody quantum ?all s) \<and> ?m (rrBody quantum ?all s) < ?m s"
    if "rrInv ?all s" "rrCond ?all s" for s
  proof -
    have i: "rrInv ?all (rrBody quantum ?all s)" using srt pos' q that by (rule rrInv_step)
    have "rrMeasure ?all (rrBody quantum ?all s) < rrMeasure ?all s"
      using q that by (rule rrMeasure_step)
    moreover have "0 \<le> rrMeasure ?all (rrBody quantum ?all s)"
      using pos' i by (rule rrMeasure_nonneg)
    ultimately show ?thesis using i by simp
  qed
  have "\<exists>k\<le>?m (rrInit ?all).
      while_option (rrCond ?all) (rrBody quantum ?all) (rrInit ?all) =
        Some ((rrBody quantum ?all ^^ k) (rrInit ?all)) \<and>
      (\<forall>i<k. rrCond ?all ((rrBody quantum ?all ^^ i) (rrInit ?all)))"
    using step rrInv_init [OF srt pos'] by (rule while_option_bounded)
  moreover have "?m (rrInit ?all) \<le> nat (sum_list (map burstTime ps) + int (length ps))"
    using rrMeasure_init [of ?all] by (simp add: sum_rem_rrAll length_rrAll)
  ultimately show ?thesis unfolding rrLoop_def Let_def by (meson le_trans)
qed

lemma rrLoop_result:
  assumes pos: "\<forall>p\<in>set ps. 0 < burstTime p" and q: "1 \<le> quantum"
  shows "\<exists>t. rrLoop ps quantum = Some t \<and> contiguousFrom 0 (gantt t) \<and>
     (\<forall>x. busyOf x (gantt t) = burstOf x ps)"
proof -
  let ?all = "rrAll ps"
  note srt = sorted_rrAll [of ps] and pos' = pos_rrAll [OF pos]
  from rrLoop_terminates [OF pos q] obtain t where t: "rrLoop ps quantum = Some t" by blast
  then have w: "while_option (rrCond ?all) (rrBody quantum ?all) (rrInit ?all) = Some t"
    by (simp add: rrLoop_def Let_def)
  have "rrInv ?all t"
    using rrInv_init [OF srt pos'] w rrInv_step [OF srt pos' q] by (rule while_option_inv)
  moreover have "rrWork ?all t"
    using rrWork_init w rrWork_step by (rule while_option_inv)
  moreover have "\<not> rrCond ?all t" using w by (rule while_option_stop)
  ultimately have "contiguousFrom 0 (gantt t)" and "\<forall>x. busyOf x (gantt t) = remOf x ?all"
    by (auto simp: rrInv_def timelineInv_def rrWork_def rrCond_def)
  then show ?thesis using t by (auto simp: remOf_rrAll)
qed

section \<open>Properties of the metrics and of the dispatcher\<close>







lemma scheduleFCFS_contiguous:
  assumes "\<forall>p\<in>set ps. 0 < burstTime p"
  shows "contiguousFrom 0 (scheduleFCFS ps)"
proof -
  have "timelineInv (fold fcfsStep (sortBy cmpFCFS ps) \<lparr>gantt = [], currentTime = 0\<rparr>)"
    using assms by (intro timelineInv_fold_fcfsStep) (simp_all add: timelineInv_def set_sortBy)
  then show ?thesis by (simp add: scheduleFCFS_def Let_def timelineInv_def)
qed

lemma scheduleFCFS_work: "busyOf x (scheduleFCFS ps) = burstOf x ps"
  using burstOf_mset [OF mset_sortBy, of x cmpFCFS ps]
  by (simp add: scheduleFCFS_def Let_def busyOf_fold_fcfsStep)

lemma scheduleFCFS_Nil [simp]: "scheduleFCFS [] = []"
  by (simp add: scheduleFCFS_def sortBy_def)

lemma simulateSchedule_returns:
  assumes pos: "\<forall>p\<in>set ps. 0 < burstTime p" and sup: "supportedPolicy alg qa"
  shows "\<exists>g. simulateSchedule localeCompare ps alg qa = Some (Inr (computeMetrics localeCompare ps g)) \<and>
     contiguousFrom 0 g \<and> (ps = [] \<longrightarrow> g = []) \<and>
     (distinct (map pid ps) \<longrightarrow> (\<forall>x. busyOf x g = burstOf x ps))"
proof (cases "ps = []")
  case True
  have "simulateSchedule localeCompare [] alg qa = Some (Inr (computeMetrics localeCompare [] []))"
    by (simp add: simulateSchedule_def computeMetrics_def emptyResult_def sortBy_def)
  then show ?thesis using True by (auto simp: burstOf_def)
next
  case False
  from sup consider "alg = ''FCFS''" | "alg = ''SJF''" | "alg = ''Priority''"
    | "alg = ''RoundRobin''" by (auto simp: supportedPolicy_def)
  then show ?thesis
  proof cases
    case 1
    have "simulateSchedule localeCompare ps alg qa = Some (Inr (computeMetrics localeCompare ps (scheduleFCFS ps)))"
      using False 1 by (simp add: simulateSchedule_def)
    then show ?thesis using False scheduleFCFS_contiguous [OF pos] scheduleFCFS_work by blast
  next
    case 2
    from npLoop_result [OF pos, of cmpSJF] obtain t where
      t: "npLoop cmpSJF ps = Some t" "contiguousFrom 0 (gantt t)" by blast
    have "simulateSchedule localeCompare ps alg qa = Some (Inr (computeMetrics localeCompare ps (gantt t)))"
      using False 2 t(1) by (simp add: simulateSchedule_def scheduleSJF_def)
    then show ?thesis using False t npLoop_work [OF _ t(1)] by blast
  next
    case 3
    from npLoop_result [OF pos, of cmpPriority] obtain t where
      t: "npLoop cmpPriority ps = Some t" "contiguousFrom 0 (gantt t)" by blast
    have "simulateSchedule localeCompare ps alg qa = Some (Inr (computeMetrics localeCompare ps (gantt t)))"
      using False 3 t(1) by (simp add: simulateSchedule_def schedulePriority_def)
    then show ?thesis using False t npLoop_work [OF _ t(1)] by blast
  next
    case 4
    let ?q = "case qa of None \<Rightarrow> 2 | Some q \<Rightarrow> q"
    have q: "1 \<le> ?q" using sup 4 by (auto simp: supportedPolicy_def split: option.splits)
    from rrLoop_result [OF pos q] obtain t where
      t: "rrLoop ps ?q = Some t" "contiguousFrom 0 (gantt t)" "\<forall>x. busyOf x (gantt t) = burstOf x ps"
      by blast
    have "simulateSchedule localeCompare ps alg qa = Some (Inr (computeMetrics localeCompare ps (gantt t)))"
      using False 4 t(1) by (simp add: simulateSchedule_def scheduleRoundRobin_def Let_def)
    then show ?thesis using False t by blast
  qed
qed



lemma valid_getExampleProcesses: "validProcesses getExampleProcesses"
  by (simp add: validProcesses_def getExampleProcesses_def)


section \<open>The sorted pass of FCFS and the general loop\<close>

lemma sorted_key_rrAll:
  "sorted_wrt (\<lambda>a b. arrivalTime a < arrivalTime b \<or>
      (arrivalTime a = arrivalTime b \<and> insertionOrder a \<le> insertionOrder b)) (rrAll ps)"
proof -
  have "sorted (map keyFCFS (sort_key keyFCFS (map toRR ps)))" by simp
  then have "sorted_wrt (\<lambda>a b. keyFCFS a \<le> keyFCFS b) (rrAll ps)"
    by (simp add: sorted_map rrAll_def sortBy_cmpFCFS)
  then show ?thesis
    by (rule sorted_wrt_mono_rel [rotated]) (auto simp: keyFCFS_def less_eq_prod_def)
qed

lemma sortBy_remove1_hd:
  assumes refl: "\<And>x. cmp x x \<le> 0"
  shows "xs \<noteq> [] \<Longrightarrow> sortBy cmp (remove1 (hd (sortBy cmp xs)) xs) = tl (sortBy cmp xs)"
proof (induction xs)
  case Nil then show ?case by simp
next
  case (Cons x xs)
  show ?case
  proof (cases "xs = []")
    case True then show ?thesis by (simp add: sortBy_def)
  next
    case False
    then obtain y ys where S: "sortBy cmp xs = y # ys"
      using sortBy_Nil_iff [of cmp xs] by (cases "sortBy cmp xs") auto
    show ?thesis
    proof (cases "cmp x y \<le> 0")
      case True
      then show ?thesis by (simp add: sortBy_Cons S)
    next
      case no: False
      then have "x \<noteq> y" using refl [of x] by auto
      moreover have "sortBy cmp (remove1 y xs) = ys" using Cons.IH [OF False] S by simp
      ultimately show ?thesis using no by (simp add: sortBy_Cons S)
    qed
  qed
qed

lemma cmpFCFS_refl: "cmpFCFS x x \<le> 0"
  by (simp add: cmpFCFS_def)

lemma hd_sortBy_filter:
  assumes "xs \<noteq> []" "P (hd (sortBy cmpFCFS xs))"
  shows "hd (sortBy cmpFCFS (filter P xs)) = hd (sortBy cmpFCFS xs)"
proof -
  obtain y ys where S: "sort_key keyFCFS xs = y # ys"
    using assms(1) sortBy_Nil_iff [of cmpFCFS xs] by (cases "sort_key keyFCFS xs") (auto simp: sortBy_cmpFCFS)
  have "sort_key keyFCFS (filter P xs) = filter P (sort_key keyFCFS xs)"
    by (simp add: filter_sort)
  then show ?thesis using assms(2) by (simp add: sortBy_cmpFCFS S)
qed

lemma hd_sortBy_least:
  assumes "p \<in> set xs"
  shows "arrivalTime (hd (sortBy cmpFCFS xs)) \<le> arrivalTime p"
proof -
  have ne: "sortBy cmpFCFS xs \<noteq> []" using assms sortBy_Nil_iff [of cmpFCFS xs] by auto
  then obtain y ys where S: "sortBy cmpFCFS xs = y # ys" by (cases "sortBy cmpFCFS xs") auto
  have "sorted (map arrivalTime (y # ys))" using sorted_arrival_sortBy [of xs] by (simp only: S)
  moreover have "p \<in> set (y # ys)" using assms set_sortBy [of cmpFCFS xs] by (simp only: S)
  ultimately show ?thesis by (auto simp: S)
qed

lemma Min_arrival_hd:
  assumes "xs \<noteq> []"
  shows "Min (set (map arrivalTime xs)) = arrivalTime (hd (sortBy cmpFCFS xs))"
proof (rule Min_eqI)
  show "finite (set (map arrivalTime xs))" by simp
  show "arrivalTime (hd (sortBy cmpFCFS xs)) \<le> y" if "y \<in> set (map arrivalTime xs)" for y
    using that hd_sortBy_least by auto
  show "arrivalTime (hd (sortBy cmpFCFS xs)) \<in> set (map arrivalTime xs)"
    using hd_sortBy_in [OF assms, of cmpFCFS] by simp
qed

lemma specStep_selects:
  assumes ne: "remaining s \<noteq> []"
  defines "m \<equiv> hd (sortBy cmpFCFS (remaining s))"
  shows "(if filter (\<lambda>p. arrivalTime p \<le> currentTime s) (remaining s) = []
          then specStep cmpFCFS (specStep cmpFCFS s) else specStep cmpFCFS s) =
         (fcfsStep m s)\<lparr>remaining := remove1 m (remaining s)\<rparr>"
    and "filter (\<lambda>p. arrivalTime p \<le> currentTime s) (remaining s) = [] \<Longrightarrow>
         remaining (specStep cmpFCFS s) \<noteq> []"
proof -
  let ?av = "\<lambda>t. filter (\<lambda>p. arrivalTime p \<le> t) (remaining s)"
  have m_in: "m \<in> set (remaining s)" unfolding m_def using ne by (rule hd_sortBy_in)
  have sel: "hd (sortBy cmpFCFS (?av t)) = m" if "arrivalTime m \<le> t" for t
    unfolding m_def using ne that [unfolded m_def] by (rule hd_sortBy_filter)
  have av_ne: "?av t \<noteq> []" if "arrivalTime m \<le> t" for t
    using m_in that by (auto simp: filter_empty_conv)
  show "filter (\<lambda>p. arrivalTime p \<le> currentTime s) (remaining s) = [] \<Longrightarrow>
         remaining (specStep cmpFCFS s) \<noteq> []"
    using ne by (simp add: specStep_def)
  show "(if ?av (currentTime s) = [] then specStep cmpFCFS (specStep cmpFCFS s)
          else specStep cmpFCFS s) = (fcfsStep m s)\<lparr>remaining := remove1 m (remaining s)\<rparr>"
  proof (cases "?av (currentTime s) = []")
    case True
    have lt: "currentTime s < arrivalTime m"
      using True m_in by (auto simp: filter_empty_conv)
    have a: "Min (set (map arrivalTime (remaining s))) = arrivalTime m"
      unfolding m_def using ne by (rule Min_arrival_hd)
    have s1: "specStep cmpFCFS s =
        s\<lparr>gantt := gantt s @ [idleSegment (currentTime s) (arrivalTime m)],
          currentTime := arrivalTime m\<rparr>"
      using True a by (simp add: specStep_def)
    have "specStep cmpFCFS (specStep cmpFCFS s) =
        (fcfsStep m s)\<lparr>remaining := remove1 m (remaining s)\<rparr>"
      unfolding s1 using av_ne [of "arrivalTime m"] sel [of "arrivalTime m"] lt
      by (simp add: specStep_def fcfsStep_def Let_def)
    then show ?thesis using True by simp
  next
    case False
    then obtain p where "p \<in> set (remaining s)" "arrivalTime p \<le> currentTime s"
      by (auto simp: filter_empty_conv)
    then have le: "arrivalTime m \<le> currentTime s"
      using hd_sortBy_least [of p "remaining s"] by (simp add: m_def)
    have "specStep cmpFCFS s = (fcfsStep m s)\<lparr>remaining := remove1 m (remaining s)\<rparr>"
      using False sel [OF le] le by (simp add: specStep_def fcfsStep_def Let_def)
    then show ?thesis using False by simp
  qed
qed

lemma fcfsStep_remaining:
  "fcfsStep x (s\<lparr>remaining := r\<rparr>) = (fcfsStep x s)\<lparr>remaining := r\<rparr>"
  by (simp add: fcfsStep_def Let_def)

lemma fold_fcfsStep_remaining:
  "fold fcfsStep xs (s\<lparr>remaining := r\<rparr>) = (fold fcfsStep xs s)\<lparr>remaining := r\<rparr>"
  by (induction xs arbitrary: s) (simp_all add: fcfsStep_remaining)

lemma fold_fcfsStep_gantt:
  "gantt s = gantt s' \<Longrightarrow> currentTime s = currentTime s' \<Longrightarrow>
     gantt (fold fcfsStep xs s) = gantt (fold fcfsStep xs s')"
proof (induction xs arbitrary: s s')
  case Nil then show ?case by simp
next
  case (Cons x xs)
  have "gantt (fcfsStep x s) = gantt (fcfsStep x s')"
    and "currentTime (fcfsStep x s) = currentTime (fcfsStep x s')"
    using Cons.prems by (simp_all add: fcfsStep_def Let_def)
  then show ?case using Cons.IH by simp
qed

lemma specLoop_fold:
  "while_option (\<lambda>s. remaining s \<noteq> []) (specStep cmpFCFS) s =
     Some ((fold fcfsStep (sortBy cmpFCFS (remaining s)) s)\<lparr>remaining := []\<rparr>)"
proof (induction "length (remaining s)" arbitrary: s rule: less_induct)
  case less
  let ?b = "\<lambda>s :: np_state. remaining s \<noteq> []"
  let ?c = "specStep cmpFCFS"
  show ?case
  proof (cases "remaining s = []")
    case True
    then show ?thesis by (subst while_option_unfold) (simp add: sortBy_def)
  next
    case False
    define m where "m = hd (sortBy cmpFCFS (remaining s))"
    define s' where "s' = (fcfsStep m s)\<lparr>remaining := remove1 m (remaining s)\<rparr>"
    have m_in: "m \<in> set (remaining s)" unfolding m_def using False by (rule hd_sortBy_in)
    have rem': "remaining s' = remove1 m (remaining s)" by (simp add: s'_def)
    have "while_option ?b ?c s = while_option ?b ?c s'"
    proof (cases "filter (\<lambda>p. arrivalTime p \<le> currentTime s) (remaining s) = []")
      case True
      have "while_option ?b ?c s = while_option ?b ?c (?c s)"
        using False by (subst while_option_unfold) simp
      also have "\<dots> = while_option ?b ?c (?c (?c s))"
        using specStep_selects(2) [OF False True] by (subst while_option_unfold) simp
      also have "?c (?c s) = s'"
        using specStep_selects(1) [OF False] True by (simp add: s'_def m_def)
      finally show ?thesis .
    next
      case no: False
      have "while_option ?b ?c s = while_option ?b ?c (?c s)"
        using False by (subst while_option_unfold) simp
      also have "?c s = s'"
        using specStep_selects(1) [OF False] no by (simp add: s'_def m_def)
      finally show ?thesis .
    qed
    also have "\<dots> = Some ((fold fcfsStep (sortBy cmpFCFS (remaining s')) s')\<lparr>remaining := []\<rparr>)"
      using m_in by (intro less.hyps) (simp add: rem' length_remove1 False)
    also have "sortBy cmpFCFS (remaining s') = tl (sortBy cmpFCFS (remaining s))"
      unfolding rem' m_def using cmpFCFS_refl False by (rule sortBy_remove1_hd)
    also have "(fold fcfsStep (tl (sortBy cmpFCFS (remaining s))) s')\<lparr>remaining := []\<rparr> =
        (fold fcfsStep (sortBy cmpFCFS (remaining s)) s)\<lparr>remaining := []\<rparr>"
    proof -
      have "sortBy cmpFCFS (remaining s) = m # tl (sortBy cmpFCFS (remaining s))"
        using False sortBy_Nil_iff [of cmpFCFS "remaining s"] by (simp add: m_def)
      then have "fold fcfsStep (sortBy cmpFCFS (remaining s)) s =
          fold fcfsStep (tl (sortBy cmpFCFS (remaining s))) (fcfsStep m s)"
        by (metis fold_simps(2))
      then show ?thesis by (simp add: s'_def fold_fcfsStep_remaining)
    qed
    finally show ?thesis .
  qed
qed

lemma npCond_iff: "npCond s \<longleftrightarrow> remaining s \<noteq> []"
  by (simp add: npCond_def)

lemma npBody_specStep:
  assumes "distinct (map pid (remaining s))"
  shows "npBody cmp s = specStep cmp s"
proof (cases "filter (\<lambda>p. arrivalTime p \<le> currentTime s) (remaining s) = []")
  case True
  then show ?thesis by (simp add: npBody_def specStep_def)
next
  case False
  let ?sel = "hd (sortBy cmp (filter (\<lambda>p. arrivalTime p \<le> currentTime s) (remaining s)))"
  have "?sel \<in> set (filter (\<lambda>p. arrivalTime p \<le> currentTime s) (remaining s))"
    using False by (rule hd_sortBy_in)
  then have "?sel \<in> set (remaining s)" by simp
  then have "splice1 (findIndex (\<lambda>p. pid p = pid ?sel) (remaining s)) (remaining s) =
      remove1 ?sel (remaining s)"
    using assms by (intro splice1_findIndex_remove1)
  then show ?thesis using False by (simp add: npBody_def specStep_def Let_def)
qed

lemma distinct_specStep:
  "distinct (map pid (remaining s)) \<Longrightarrow> distinct (map pid (remaining (specStep cmp s)))"
  by (simp add: specStep_def Let_def distinct_map_remove1)

lemma npLoop_specLoop:
  assumes "distinct (map pid ps)"
  shows "map_option gantt (npLoop cmp ps) = specLoop cmp ps"
proof -
  have "map_option id (while_option npCond (npBody cmp) (npInit ps)) =
      while_option (\<lambda>s. remaining s \<noteq> []) (specStep cmp) (id (npInit ps))"
  proof (rule while_option_commute_invariant [where P = "\<lambda>s. distinct (map pid (remaining s))"])
    show "distinct (map pid (remaining (npInit ps)))" using assms by (simp add: npInit_def)
  qed (simp_all add: npCond_iff npBody_specStep distinct_specStep)
  then show ?thesis by (simp add: npLoop_def specLoop_def npInit_def option.map_id)
qed

text \<open>
  With a pid that occurs twice the loop of the source can take the wrong descriptor out of
  \<open>remaining\<close>, since it looks the selected process up by its pid: the second
  descriptor of \<open>dupExample\<close> then runs twice and the first one never.
\<close>

lemma pid_keyed_removal_on_duplicates:
  "map_option gantt (npLoop cmpFCFS dupExample) =
     Some [runSegment ''X'' 0 2, runSegment ''X'' 2 4] \<and>
   specLoop cmpFCFS dupExample =
     Some [runSegment ''X'' 0 2, idleSegment 2 5, runSegment ''X'' 5 6]"
  by code_simp

section \<open>The store-level model: frame and refinement\<close>

lemma newArray_simps [simp]:
  "procOf (fst (newArray h xs)) = procOf h"
  "rrOf (fst (newArray h xs)) = rrOf h"
  "arrayOf (fst (newArray h xs)) = (arrayOf h)(nextAddr h := xs)"
  "nextAddr (fst (newArray h xs)) = Suc (nextAddr h)"
  "snd (newArray h xs) = nextAddr h"
  by (simp_all add: newArray_def)

lemma setArray_simps [simp]:
  "procOf (setArray h a xs) = procOf h"
  "rrOf (setArray h a xs) = rrOf h"
  "arrayOf (setArray h a xs) = (arrayOf h)(a := xs)"
  "nextAddr (setArray h a xs) = nextAddr h"
  by (simp_all add: setArray_def)

lemma newProc_simps [simp]:
  "procOf (fst (newProc h p)) = (procOf h)(nextAddr h := p)"
  "rrOf (fst (newProc h p)) = rrOf h"
  "arrayOf (fst (newProc h p)) = arrayOf h"
  "nextAddr (fst (newProc h p)) = Suc (nextAddr h)"
  "snd (newProc h p) = nextAddr h"
  by (simp_all add: newProc_def)

lemma newRR_simps [simp]:
  "procOf (fst (newRR h r)) = procOf h"
  "rrOf (fst (newRR h r)) = (rrOf h)(nextAddr h := r)"
  "arrayOf (fst (newRR h r)) = arrayOf h"
  "nextAddr (fst (newRR h r)) = Suc (nextAddr h)"
  "snd (newRR h r) = nextAddr h"
  by (simp_all add: newRR_def)

lemma setRemainingBurst_simps [simp]:
  "procOf (setRemainingBurst h a v) = procOf h"
  "rrOf (setRemainingBurst h a v) = (rrOf h)(a := (rrOf h a)\<lparr>remainingBurst := v\<rparr>)"
  "arrayOf (setRemainingBurst h a v) = arrayOf h"
  "nextAddr (setRemainingBurst h a v) = nextAddr h"
  by (simp_all add: setRemainingBurst_def)

lemma unchangedBelow_refl [simp]: "unchangedBelow n h h"
  by (simp add: unchangedBelow_def)

lemma unchangedBelow_newArray:
  "unchangedBelow n h0 h \<Longrightarrow> n \<le> nextAddr h \<Longrightarrow> unchangedBelow n h0 (fst (newArray h xs))"
  by (simp add: unchangedBelow_def)

lemma unchangedBelow_setArray:
  "unchangedBelow n h0 h \<Longrightarrow> n \<le> a \<Longrightarrow> unchangedBelow n h0 (setArray h a xs)"
  by (simp add: unchangedBelow_def)

lemma unchangedBelow_newProc:
  "unchangedBelow n h0 h \<Longrightarrow> n \<le> nextAddr h \<Longrightarrow> unchangedBelow n h0 (fst (newProc h p))"
  by (simp add: unchangedBelow_def)

lemma unchangedBelow_newRR:
  "unchangedBelow n h0 h \<Longrightarrow> n \<le> nextAddr h \<Longrightarrow> unchangedBelow n h0 (fst (newRR h r))"
  by (simp add: unchangedBelow_def)

lemma unchangedBelow_setRemainingBurst:
  "unchangedBelow n h0 h \<Longrightarrow> n \<le> a \<Longrightarrow> unchangedBelow n h0 (setRemainingBurst h a v)"
  by (simp add: unchangedBelow_def)

lemma mapCopy_frame:
  "unchangedBelow n h0 h \<Longrightarrow> n \<le> nextAddr h \<Longrightarrow>
     unchangedBelow n h0 (fst (mapCopy h ps)) \<and> nextAddr h \<le> nextAddr (fst (mapCopy h ps))"
proof (induction ps arbitrary: h)
  case Nil then show ?case by simp
next
  case (Cons p ps)
  let ?h1 = "fst (newProc h (procOf h p))"
  have "unchangedBelow n h0 ?h1" "n \<le> nextAddr ?h1"
    using Cons.prems by (simp_all add: unchangedBelow_newProc)
  from Cons.IH [OF this] show ?case by (simp add: split_def Let_def)
qed

lemma mapToRR_frame:
  "unchangedBelow n h0 h \<Longrightarrow> n \<le> nextAddr h \<Longrightarrow>
     unchangedBelow n h0 (fst (mapToRR h ps)) \<and> nextAddr h \<le> nextAddr (fst (mapToRR h ps)) \<and>
     (\<forall>r\<in>set (snd (mapToRR h ps)). n \<le> r)"
proof (induction ps arbitrary: h)
  case Nil then show ?case by simp
next
  case (Cons p ps)
  let ?h1 = "fst (newRR h (toRR (procOf h p)))"
  have "unchangedBelow n h0 ?h1" "n \<le> nextAddr ?h1"
    using Cons.prems by (simp_all add: unchangedBelow_newRR)
  from Cons.IH [OF this] Cons.prems(2) show ?case by (simp add: split_def Let_def)
qed

lemma scheduleFCFS_h_frame:
  "unchangedBelow n h0 h \<Longrightarrow> n \<le> nextAddr h \<Longrightarrow>
     unchangedBelow n h0 (fst (scheduleFCFS_h h processes))"
  by (simp add: scheduleFCFS_h_def split_def Let_def unchangedBelow_setArray
      unchangedBelow_newArray)

lemma npFrame_step:
  assumes "npFrame n h0 remainingRef s"
  shows "npFrame n h0 remainingRef (npBody_h cmp remainingRef s)"
  using assms
  by (simp add: npFrame_def npBody_h_def split_def Let_def unchangedBelow_setArray
      unchangedBelow_newArray)

lemma scheduleNP_h_frame:
  assumes "unchangedBelow n h0 h" "n \<le> nextAddr h" "scheduleNP_h cmp h processes = Some (h', g)"
  shows "unchangedBelow n h0 h'"
proof -
  let ?h1 = "fst (newArray h (arrayOf h processes))"
  let ?s0 = "\<lparr>gantt = [], currentTime = 0, np_store = ?h1\<rparr>"
  from assms(3) obtain t where
    t: "while_option (\<lambda>s. length (arrayOf (np_store s) (nextAddr h)) > 0)
          (npBody_h cmp (nextAddr h)) ?s0 = Some t" and h': "h' = np_store t"
    by (auto simp: scheduleNP_h_def split_def Let_def)
  have "npFrame n h0 (nextAddr h) ?s0"
    using assms(1,2) by (simp add: npFrame_def unchangedBelow_newArray)
  then have "npFrame n h0 (nextAddr h) t" using t npFrame_step by (rule while_option_inv)
  then show ?thesis by (simp add: npFrame_def h')
qed

lemma setArray_same [simp]: "setArray h a (arrayOf h a) = h"
  by (simp add: setArray_def)

lemma setArray_setArray [simp]: "setArray (setArray h a xs) a ys = setArray h a ys"
  by (simp add: setArray_def)

lemma enqueueArrivals_h_eq:
  "enqueueArrivals_h allProcesses rq u s =
     s\<lparr>rr_store := setArray (rr_store s) rq
          (arrayOf (rr_store s) rq @ arrivedBy_h u allProcesses s),
       processIndex_h := processIndex_h s + length (arrivedBy_h u allProcesses s)\<rparr>"
proof (induction allProcesses rq u s rule: enqueueArrivals_h.induct)
  case (1 allProcesses rq u s)
  let ?i = "processIndex_h s"
  let ?h = "rr_store s"
  show ?case
  proof (cases "?i < length allProcesses \<and> arrivalTime (rrOf ?h (allProcesses ! ?i)) \<le> u")
    case True
    let ?s' = "s\<lparr>rr_store := setArray ?h rq (arrayOf ?h rq @ [allProcesses ! ?i]),
                processIndex_h := Suc ?i\<rparr>"
    have d: "drop ?i allProcesses = allProcesses ! ?i # drop (Suc ?i) allProcesses"
      using True by (simp add: Cons_nth_drop_Suc)
    have a: "arrivedBy_h u allProcesses s = allProcesses ! ?i # arrivedBy_h u allProcesses ?s'"
      using True by (simp add: arrivedBy_h_def d)
    have "enqueueArrivals_h allProcesses rq u s = enqueueArrivals_h allProcesses rq u ?s'"
      using True by (subst enqueueArrivals_h.simps) simp
    also have "\<dots> = ?s'\<lparr>rr_store := setArray (rr_store ?s') rq
          (arrayOf (rr_store ?s') rq @ arrivedBy_h u allProcesses ?s'),
       processIndex_h := processIndex_h ?s' + length (arrivedBy_h u allProcesses ?s')\<rparr>"
      using True by (intro "1.IH") simp
    also have "\<dots> = s\<lparr>rr_store := setArray ?h rq (arrayOf ?h rq @ arrivedBy_h u allProcesses s),
       processIndex_h := ?i + length (arrivedBy_h u allProcesses s)\<rparr>"
      by (simp add: a)
    finally show ?thesis .
  next
    case False
    have "arrivedBy_h u allProcesses s = []"
    proof (cases "?i < length allProcesses")
      case True
      then have "drop ?i allProcesses = allProcesses ! ?i # drop (Suc ?i) allProcesses"
        by (simp add: Cons_nth_drop_Suc)
      then show ?thesis using False True by (simp add: arrivedBy_h_def)
    next
      case False
      then show ?thesis by (simp add: arrivedBy_h_def)
    qed
    moreover have "enqueueArrivals_h allProcesses rq u s = s"
      using False by (subst enqueueArrivals_h.simps) auto
    ultimately show ?thesis by simp
  qed
qed

lemma set_arrivedBy_h: "set (arrivedBy_h u allProcesses s) \<subseteq> set allProcesses"
  unfolding arrivedBy_h_def by (meson set_takeWhileD in_set_dropD subsetI)

lemma rrFrame_enqueue:
  assumes "rrFrame n h0 allProcesses rq s"
  shows "rrFrame n h0 allProcesses rq (enqueueArrivals_h allProcesses rq u s)"
  using assms set_arrivedBy_h [of u allProcesses s]
  by (auto simp: rrFrame_def enqueueArrivals_h_eq unchangedBelow_setArray)

lemma rrFrame_step:
  assumes "rrFrame n h0 allProcesses rq s"
  shows "rrFrame n h0 allProcesses rq (rrBody_h quantum allProcesses rq s)"
proof (cases "arrayOf (rr_store s) rq = []")
  case True
  let ?s1 = "s\<lparr>gantt := gantt s @ [idleSegment (currentTime s)
        (arrivalTime (rrOf (rr_store s) (allProcesses ! processIndex_h s)))],
      currentTime := arrivalTime (rrOf (rr_store s) (allProcesses ! processIndex_h s))\<rparr>"
  have "rrFrame n h0 allProcesses rq ?s1" using assms by (simp add: rrFrame_def)
  then have "rrFrame n h0 allProcesses rq (enqueueArrivals_h allProcesses rq (currentTime ?s1) ?s1)"
    by (rule rrFrame_enqueue)
  then show ?thesis using True by (simp add: rrBody_h_def Let_def)
next
  case False
  let ?h = "rr_store s"
  let ?cur = "hd (arrayOf ?h rq)"
  let ?h1 = "setArray ?h rq (tl (arrayOf ?h rq))"
  let ?e = "min quantum (remainingBurst (rrOf ?h1 ?cur))"
  let ?h2 = "setRemainingBurst ?h1 ?cur (remainingBurst (rrOf ?h1 ?cur) - ?e)"
  let ?s2 = "s\<lparr>gantt := gantt s @ [runSegment (pid (rrOf ?h1 ?cur)) (currentTime s)
        (currentTime s + ?e)], currentTime := currentTime s + ?e, rr_store := ?h2\<rparr>"
  let ?s3 = "enqueueArrivals_h allProcesses rq (currentTime ?s2) ?s2"
  have cur: "n \<le> ?cur" using assms False by (simp add: rrFrame_def)
  have tl: "\<forall>a\<in>set (tl (arrayOf ?h rq)). n \<le> a"
    using assms False by (metis list.set_sel(2) rrFrame_def)
  have "rrFrame n h0 allProcesses rq ?s2"
    using assms cur tl
    by (simp add: rrFrame_def unchangedBelow_setArray unchangedBelow_setRemainingBurst)
  then have f3: "rrFrame n h0 allProcesses rq ?s3" by (rule rrFrame_enqueue)
  then have "rrFrame n h0 allProcesses rq
      (?s3\<lparr>rr_store := setArray (rr_store ?s3) rq (arrayOf (rr_store ?s3) rq @ [?cur])\<rparr>)"
    using cur by (simp add: rrFrame_def unchangedBelow_setArray)
  then show ?thesis using False f3 by (simp add: rrBody_h_def Let_def)
qed

lemma scheduleRoundRobin_h_frame:
  assumes "unchangedBelow n h0 h" "n \<le> nextAddr h"
    "scheduleRoundRobin_h h processes quantum = Some (h', g)"
  shows "unchangedBelow n h0 h'"
proof -
  obtain h1 refs where m: "mapToRR h (arrayOf h processes) = (h1, refs)" by fastforce
  from mapToRR_frame [OF assms(1,2), of "arrayOf h processes"] m
  have h1: "unchangedBelow n h0 h1" "n \<le> nextAddr h1" "\<forall>r\<in>set refs. n \<le> r"
    using assms(2) by auto
  let ?h2 = "fst (newArray h1 refs)"
  let ?h3 = "setArray ?h2 (nextAddr h1) (sortBy (\<lambda>a b. cmpFCFS (rrOf ?h2 a) (rrOf ?h2 b)) (arrayOf ?h2 (nextAddr h1)))"
  let ?all = "arrayOf ?h3 (nextAddr h1)"
  let ?h4 = "fst (newArray ?h3 [])"
  let ?rq = "Suc (nextAddr h1)"
  let ?start = "\<lparr>gantt = [], currentTime = 0, rr_store = ?h4, processIndex_h = 0\<rparr>"
  let ?s0 = "enqueueArrivals_h ?all ?rq 0 ?start"
  from assms(3) obtain t where
    t: "while_option (\<lambda>s. length (arrayOf (rr_store s) ?rq) > 0 \<or> processIndex_h s < length ?all)
          (rrBody_h quantum ?all ?rq) ?s0 = Some t" and h': "h' = rr_store t"
    by (auto simp: scheduleRoundRobin_h_def m split_def Let_def)
  have all: "\<forall>a\<in>set ?all. n \<le> a" using h1(3) by (simp add: set_sortBy)
  have "unchangedBelow n h0 ?h4"
    using h1(1,2) by (intro unchangedBelow_newArray unchangedBelow_setArray) simp_all
  then have "rrFrame n h0 ?all ?rq ?start" using all h1(2) by (simp add: rrFrame_def)
  then have "rrFrame n h0 ?all ?rq ?s0" by (rule rrFrame_enqueue)
  then have "rrFrame n h0 ?all ?rq t" using t rrFrame_step by (rule while_option_inv)
  then show ?thesis by (simp add: rrFrame_def h')
qed

lemma simulateSchedule_h_frame:
  assumes "simulateSchedule_h localeCompare h processes algorithm quantumArg = Some (h', out)"
  shows "unchangedBelow (nextAddr h) h h'"
proof (cases "arrayOf h processes = []")
  case True
  then show ?thesis using assms by (simp add: simulateSchedule_h_def)
next
  case False
  obtain h1 refs where m: "mapCopy h (arrayOf h processes) = (h1, refs)" by fastforce
  from mapCopy_frame [of "nextAddr h" h h "arrayOf h processes"] m
  have h1: "unchangedBelow (nextAddr h) h h1" "nextAddr h \<le> nextAddr h1" by auto
  let ?h2 = "fst (newArray h1 refs)"
  have h2: "unchangedBelow (nextAddr h) h ?h2" "nextAddr h \<le> nextAddr ?h2"
    using h1 by (simp_all add: unchangedBelow_newArray)
  consider "algorithm = ''FCFS''" | "algorithm = ''SJF''" | "algorithm = ''Priority''"
    | "algorithm = ''RoundRobin''"
    | "algorithm \<notin> {''FCFS'', ''SJF'', ''Priority'', ''RoundRobin''}" by auto
  then show ?thesis
  proof cases
    case 1
    then have "h' = fst (scheduleFCFS_h ?h2 (nextAddr h1))"
      using assms False by (auto simp: simulateSchedule_h_def m split_def Let_def)
    then show ?thesis using scheduleFCFS_h_frame [OF h2] by simp
  next
    case 2
    then obtain g where "scheduleNP_h cmpSJF ?h2 (nextAddr h1) = Some (h', g)"
      using assms False by (auto simp: simulateSchedule_h_def m split_def Let_def)
    then show ?thesis using scheduleNP_h_frame [OF h2] by blast
  next
    case 3
    then obtain g where "scheduleNP_h cmpPriority ?h2 (nextAddr h1) = Some (h', g)"
      using assms False by (auto simp: simulateSchedule_h_def m split_def Let_def)
    then show ?thesis using scheduleNP_h_frame [OF h2] by blast
  next
    case 4
    then obtain g where "scheduleRoundRobin_h ?h2 (nextAddr h1)
        (case quantumArg of None \<Rightarrow> 2 | Some q \<Rightarrow> q) = Some (h', g)"
      using assms False by (auto simp: simulateSchedule_h_def m split_def Let_def)
    then show ?thesis using scheduleRoundRobin_h_frame [OF h2] by blast
  next
    case 5
    then have "h' = ?h2"
      using assms False by (auto simp: simulateSchedule_h_def m split_def Let_def)
    then show ?thesis using h2 by simp
  qed
qed

lemma map_insertBy:
  "map g (insertBy (\<lambda>a b. cmp (g a) (g b)) x xs) = insertBy cmp (g x) (map g xs)"
  by (induction xs) auto

lemma map_sortBy: "map g (sortBy (\<lambda>a b. cmp (g a) (g b)) xs) = sortBy cmp (map g xs)"
  by (induction xs) (simp_all add: sortBy_def map_insertBy)

lemma findIndex_map: "findIndex Q (map g xs) = findIndex (\<lambda>p. Q (g p)) xs"
  by (induction xs) (simp_all add: Let_def)

lemma map_splice1: "map g (splice1 i xs) = splice1 i (map g xs)"
  by (simp add: splice1_def Let_def take_map drop_map)

lemma mapCopy_refs:
  "snd (mapCopy h ps) = [nextAddr h ..< nextAddr h + length ps] \<and>
   nextAddr (fst (mapCopy h ps)) = nextAddr h + length ps"
proof (induction ps arbitrary: h)
  case Nil then show ?case by simp
next
  case (Cons p ps)
  let ?h1 = "fst (newProc h (procOf h p))"
  from Cons.IH [of ?h1] show ?case
    by (simp add: split_def Let_def upt_conv_Cons del: upt_Suc)
qed

lemma mapCopy_procOf_below:
  "a < nextAddr h \<Longrightarrow> procOf (fst (mapCopy h ps)) a = procOf h a"
  using mapCopy_frame [of "nextAddr h" h h ps] by (simp add: unchangedBelow_def)

lemma mapCopy_other [simp]:
  "rrOf (fst (mapCopy h ps)) = rrOf h" "arrayOf (fst (mapCopy h ps)) = arrayOf h"
  by (induction ps arbitrary: h) (simp_all add: split_def Let_def)

lemma mapCopy_values:
  "\<forall>r\<in>set ps. r < nextAddr h \<Longrightarrow>
     map (procOf (fst (mapCopy h ps))) (snd (mapCopy h ps)) = map (procOf h) ps"
proof (induction ps arbitrary: h)
  case Nil then show ?case by simp
next
  case (Cons p ps)
  let ?h1 = "fst (newProc h (procOf h p))"
  have lt: "\<forall>r\<in>set ps. r < nextAddr ?h1" using Cons.prems by auto
  have "map (procOf (fst (mapCopy ?h1 ps))) (snd (mapCopy ?h1 ps)) = map (procOf ?h1) ps"
    using lt by (rule Cons.IH)
  also have "\<dots> = map (procOf h) ps" using Cons.prems by auto
  finally have rest: "map (procOf (fst (mapCopy ?h1 ps))) (snd (mapCopy ?h1 ps)) = map (procOf h) ps" .
  have "procOf (fst (mapCopy ?h1 ps)) (nextAddr h) = procOf ?h1 (nextAddr h)"
    by (rule mapCopy_procOf_below) simp
  then have first: "procOf (fst (mapCopy ?h1 ps)) (nextAddr h) = procOf h p" by simp
  show ?case using rest first by (simp add: split_def Let_def)
qed

lemma scheduleFCFS_h_refines:
  "snd (scheduleFCFS_h h procs) = scheduleFCFS (map (procOf h) (arrayOf h procs))"
  by (simp add: scheduleFCFS_h_def scheduleFCFS_def split_def Let_def map_sortBy [symmetric]
      fold_map comp_def)

lemma scheduleFCFS_h_procOf [simp]: "procOf (fst (scheduleFCFS_h h procs)) = procOf h"
  by (simp add: scheduleFCFS_h_def split_def Let_def)

lemma npBody_h_refines:
  assumes "remainingRef < nextAddr (np_store s)"
  shows "absNP remainingRef (npBody_h cmp remainingRef s) = npBody cmp (absNP remainingRef s)"
    and "remainingRef < nextAddr (np_store (npBody_h cmp remainingRef s))"
    and "procOf (np_store (npBody_h cmp remainingRef s)) = procOf (np_store s)"
proof -
  let ?h = "np_store s"
  let ?R = "arrayOf ?h remainingRef"
  let ?f = "procOf ?h"
  let ?av = "filter (\<lambda>p. arrivalTime (?f p) \<le> currentTime s) ?R"
  have ne: "remainingRef \<noteq> nextAddr ?h" using assms by simp
  have fm: "filter (\<lambda>p. arrivalTime p \<le> currentTime s) (map ?f ?R) = map ?f ?av"
    by (simp add: filter_map comp_def)
  show "absNP remainingRef (npBody_h cmp remainingRef s) = npBody cmp (absNP remainingRef s)"
  proof (cases "?av = []")
    case True
    then show ?thesis
      using ne by (simp add: absNP_def npBody_h_def npBody_def split_def Let_def fm comp_def)
  next
    case False
    have hd: "hd (sortBy cmp (map ?f ?av)) = ?f (hd (sortBy (\<lambda>a b. cmp (?f a) (?f b)) ?av))"
      using False by (simp add: map_sortBy [symmetric] hd_map sortBy_Nil_iff)
    show ?thesis
      using False ne
      by (simp add: absNP_def npBody_h_def npBody_def split_def Let_def fm hd
          map_splice1 findIndex_map)
  qed
  show "remainingRef < nextAddr (np_store (npBody_h cmp remainingRef s))"
    using assms by (simp add: npBody_h_def split_def Let_def)
  show "procOf (np_store (npBody_h cmp remainingRef s)) = procOf (np_store s)"
    by (simp add: npBody_h_def split_def Let_def)
qed

lemma scheduleNP_h_refines:
  "map_option snd (scheduleNP_h cmp h procs) =
     map_option gantt (npLoop cmp (map (procOf h) (arrayOf h procs)))"
proof -
  let ?r = "nextAddr h"
  let ?h1 = "fst (newArray h (arrayOf h procs))"
  let ?s0 = "\<lparr>gantt = [], currentTime = 0, np_store = ?h1\<rparr>"
  let ?b = "\<lambda>s. length (arrayOf (np_store s) ?r) > 0"
  have "map_option (absNP ?r) (while_option ?b (npBody_h cmp ?r) ?s0) =
      while_option npCond (npBody cmp) (absNP ?r ?s0)"
  proof (rule while_option_commute_invariant [where P = "\<lambda>s. ?r < nextAddr (np_store s)"])
    show "?r < nextAddr (np_store ?s0)" by simp
  qed (simp_all add: npBody_h_refines, simp add: absNP_def npCond_def)
  moreover have "absNP ?r ?s0 = npInit (map (procOf h) (arrayOf h procs))"
    by (simp add: absNP_def npInit_def)
  ultimately have "map_option (absNP ?r) (while_option ?b (npBody_h cmp ?r) ?s0) =
      npLoop cmp (map (procOf h) (arrayOf h procs))"
    by (simp add: npLoop_def)
  then have "map_option gantt (npLoop cmp (map (procOf h) (arrayOf h procs))) =
      map_option gantt (map_option (absNP ?r) (while_option ?b (npBody_h cmp ?r) ?s0))"
    by (rule arg_cong [THEN sym])
  also have "\<dots> = map_option (\<lambda>s. gantt (absNP ?r s)) (while_option ?b (npBody_h cmp ?r) ?s0)"
    by (simp add: option.map_comp comp_def)
  also have "\<dots> = map_option snd (scheduleNP_h cmp h procs)"
    by (simp add: scheduleNP_h_def split_def Let_def option.map_comp comp_def absNP_def)
  finally show ?thesis by simp
qed

lemma absRR_simps [simp]:
  "gantt (absRR rq s) = gantt s" "currentTime (absRR rq s) = currentTime s"
  "readyQueue (absRR rq s) = map (rrOf (rr_store s)) (arrayOf (rr_store s) rq)"
  "processIndex (absRR rq s) = processIndex_h s"
  by (simp_all add: absRR_def)

lemma pending_values:
  assumes "rrSim all allV rq s" "length allV = length all"
  shows "map (rrOf (rr_store s)) (drop (processIndex_h s) all) = drop (processIndex_h s) allV"
proof (rule nth_equalityI)
  show "length (map (rrOf (rr_store s)) (drop (processIndex_h s) all)) =
      length (drop (processIndex_h s) allV)" using assms(2) by simp
  fix k assume "k < length (map (rrOf (rr_store s)) (drop (processIndex_h s) all))"
  then have k: "processIndex_h s + k < length all" by simp
  then have "rrOf (rr_store s) (all ! (processIndex_h s + k)) = allV ! (processIndex_h s + k)"
    using assms(1) by (simp add: rrSim_def)
  then show "map (rrOf (rr_store s)) (drop (processIndex_h s) all) ! k =
      drop (processIndex_h s) allV ! k"
    using k assms(2) by simp
qed

lemma arrived_values:
  assumes "rrSim all allV rq s" "length allV = length all"
  shows "map (rrOf (rr_store s)) (arrivedBy_h u all s) = arrivedBy u allV (absRR rq s)"
proof -
  have "arrivedBy u allV (absRR rq s) =
      takeWhile (\<lambda>p. arrivalTime p \<le> u) (map (rrOf (rr_store s)) (drop (processIndex_h s) all))"
    using pending_values [OF assms] by (simp add: arrivedBy_def)
  then show ?thesis by (simp add: takeWhile_map arrivedBy_h_def comp_def)
qed

lemma enqueueArrivals_h_refines:
  assumes "rrSim all allV rq s" "length allV = length all"
  shows "absRR rq (enqueueArrivals_h all rq u s) = enqueueArrivals allV u (absRR rq s)"
  using arrived_values [OF assms, of u, symmetric]
  by (simp add: enqueueArrivals_h_eq enqueueArrivals_eq absRR_def)

lemma arrivedBy_h_take:
  "arrivedBy_h u all s = take (length (arrivedBy_h u all s)) (drop (processIndex_h s) all)"
  unfolding arrivedBy_h_def by (metis takeWhile_eq_take)

lemma take_drop_disjoint:
  assumes "distinct xs"
  shows "set (take i xs) \<inter> set (drop i xs) = {}"
proof -
  have "distinct (take i xs @ drop i xs)" using assms by simp
  then show ?thesis by (simp only: distinct_append)
qed

lemma rrSim_enqueue:
  assumes sim: "rrSim all allV rq s" and d: "distinct all"
  shows "rrSim all allV rq (enqueueArrivals_h all rq u s)"
proof -
  let ?i = "processIndex_h s"
  let ?tw = "arrivedBy_h u all s"
  let ?q = "arrayOf (rr_store s) rq"
  have tw: "?tw = take (length ?tw) (drop ?i all)" by (rule arrivedBy_h_take)
  have split: "take (?i + length ?tw) all = take ?i all @ ?tw"
    using tw by (simp add: take_add)
  have q: "set ?q \<subseteq> set (take ?i all)" "distinct ?q" using sim by (simp_all add: rrSim_def)
  have twd: "set ?tw \<subseteq> set (drop ?i all)" by (metis tw set_take_subset)
  have "distinct (drop ?i all)" using d by simp
  then have dtw: "distinct ?tw" by (metis tw distinct_take)
  have disj: "set ?q \<inter> set ?tw = {}"
    using q(1) twd take_drop_disjoint [OF d, of ?i] by blast
  have 1: "\<forall>j. ?i + length ?tw \<le> j \<and> j < length all \<longrightarrow> rrOf (rr_store s) (all ! j) = allV ! j"
    using sim by (simp add: rrSim_def)
  have 2: "set (?q @ ?tw) \<subseteq> set (take (?i + length ?tw) all)"
    using q(1) by (auto simp: split)
  have 3: "distinct (?q @ ?tw)" using q(2) dtw disj by simp
  show ?thesis using 1 2 3 by (simp add: rrSim_def enqueueArrivals_h_eq)
qed

lemma hd_in_taken:
  assumes "rrSim all allV rq s" "distinct all" "arrayOf (rr_store s) rq \<noteq> []"
  shows "hd (arrayOf (rr_store s) rq) \<notin> set (tl (arrayOf (rr_store s) rq))"
    and "hd (arrayOf (rr_store s) rq) \<notin> set (drop (processIndex_h s) all)"
proof -
  let ?q = "arrayOf (rr_store s) rq"
  have "distinct ?q" using assms(1) by (simp add: rrSim_def)
  then show "hd ?q \<notin> set (tl ?q)" using assms(3) by (cases ?q) auto
  have "hd ?q \<in> set (take (processIndex_h s) all)"
    using assms(1,3) by (auto simp: rrSim_def)
  then show "hd ?q \<notin> set (drop (processIndex_h s) all)"
    using take_drop_disjoint [OF assms(2), of "processIndex_h s"] by blast
qed

lemma nth_in_drop: "i \<le> j \<Longrightarrow> j < length xs \<Longrightarrow> xs ! j \<in> set (drop i xs)"
proof -
  assume a: "i \<le> j" "j < length xs"
  then have "drop i xs ! (j - i) = xs ! j" by simp
  moreover have "j - i < length (drop i xs)" using a by simp
  ultimately show ?thesis by (metis nth_mem)
qed

lemma afterSlice_index [simp]: "processIndex_h (afterSlice quantum rq s) = processIndex_h s"
  by (simp add: afterSlice_def Let_def)

lemma rrBody_h_run:
  assumes "arrayOf (rr_store s) rq \<noteq> []"
  shows "rrBody_h quantum all rq s =
     (let current = hd (arrayOf (rr_store s) rq);
          s2 = afterSlice quantum rq s;
          s3 = enqueueArrivals_h all rq (currentTime s2) s2
      in if remainingBurst (rrOf (rr_store s3) current) > 0
         then s3\<lparr>rr_store := setArray (rr_store s3) rq (arrayOf (rr_store s3) rq @ [current])\<rparr>
         else s3)"
  using assms by (simp add: rrBody_h_def afterSlice_def Let_def)

lemma rrSim_afterSlice:
  assumes sim: "rrSim all allV rq s" and d: "distinct all"
    and ne: "arrayOf (rr_store s) rq \<noteq> []"
  shows "rrSim all allV rq (afterSlice quantum rq s)"
proof -
  let ?q = "arrayOf (rr_store s) rq"
  note cur = hd_in_taken [OF sim d ne]
  have "all ! j \<noteq> hd ?q" if "processIndex_h s \<le> j" "j < length all" for j
    using nth_in_drop [OF that] cur(2) by auto
  then have 1: "\<forall>j. processIndex_h s \<le> j \<and> j < length all \<longrightarrow>
      rrOf (rr_store (afterSlice quantum rq s)) (all ! j) = allV ! j"
    using sim by (simp add: rrSim_def afterSlice_def Let_def)
  have "set (tl ?q) \<subseteq> set ?q" using ne by (cases ?q) auto
  then have 2: "set (arrayOf (rr_store (afterSlice quantum rq s)) rq) \<subseteq>
      set (take (processIndex_h (afterSlice quantum rq s)) all)"
    using sim by (auto simp: rrSim_def afterSlice_def Let_def)
  have 3: "distinct (arrayOf (rr_store (afterSlice quantum rq s)) rq)"
    using sim by (simp add: rrSim_def afterSlice_def Let_def distinct_tl)
  show ?thesis using 1 2 3 by (simp add: rrSim_def)
qed

lemma rrBody_h_refines:
  assumes sim: "rrSim all allV rq s" and d: "distinct all" and len: "length allV = length all"
    and cond: "arrayOf (rr_store s) rq \<noteq> [] \<or> processIndex_h s < length all"
  shows "absRR rq (rrBody_h quantum all rq s) = rrBody quantum allV (absRR rq s) \<and>
     rrSim all allV rq (rrBody_h quantum all rq s)"
proof (cases "arrayOf (rr_store s) rq = []")
  case True
  let ?h = "rr_store s"
  have i: "processIndex_h s < length all" using cond True by simp
  define a where "a = arrivalTime (rrOf ?h (all ! processIndex_h s))"
  define s1 where "s1 = s\<lparr>gantt := gantt s @ [idleSegment (currentTime s) a], currentTime := a\<rparr>"
  have av: "arrivalTime (allV ! processIndex_h s) = a"
    using sim i by (simp add: rrSim_def a_def)
  have sim1: "rrSim all allV rq s1" using sim by (simp add: rrSim_def s1_def)
  have body: "rrBody_h quantum all rq s = enqueueArrivals_h all rq a s1"
    using True by (simp add: rrBody_h_def Let_def a_def s1_def)
  have "absRR rq s1 =
      (absRR rq s)\<lparr>gantt := gantt (absRR rq s) @ [idleSegment (currentTime (absRR rq s)) a],
        currentTime := a\<rparr>"
    by (simp add: absRR_def s1_def)
  moreover have "rrBody quantum allV (absRR rq s) =
      enqueueArrivals allV a
        ((absRR rq s)\<lparr>gantt := gantt (absRR rq s) @ [idleSegment (currentTime (absRR rq s)) a],
          currentTime := a\<rparr>)"
    using True av by (simp add: rrBody_def Let_def)
  ultimately have "absRR rq (enqueueArrivals_h all rq a s1) = rrBody quantum allV (absRR rq s)"
    using enqueueArrivals_h_refines [OF sim1 len, of a] by simp
  then show ?thesis using rrSim_enqueue [OF sim1 d] by (simp add: body)
next
  case False
  let ?h = "rr_store s"
  define q where "q = arrayOf ?h rq"
  define cur where "cur = hd q"
  define e where "e = min quantum (remainingBurst (rrOf ?h cur))"
  define s2 where "s2 = afterSlice quantum rq s"
  define s3 where "s3 = enqueueArrivals_h all rq (currentTime s2) s2"
  define tw where "tw = arrivedBy_h (currentTime s2) all s2"
  define cur' where "cur' = (rrOf ?h cur)\<lparr>remainingBurst := remainingBurst (rrOf ?h cur) - e\<rparr>"
  have ne: "q \<noteq> []" using False by (simp add: q_def)
  note cur = hd_in_taken [OF sim d False, folded q_def, folded cur_def]
  have sim2: "rrSim all allV rq s2" unfolding s2_def using sim d False by (rule rrSim_afterSlice)
  have sim3: "rrSim all allV rq s3" unfolding s3_def using sim2 d by (rule rrSim_enqueue)
  have s2: "gantt s2 = gantt s @ [runSegment (pid (rrOf ?h cur)) (currentTime s) (currentTime s + e)]"
    "currentTime s2 = currentTime s + e" "processIndex_h s2 = processIndex_h s"
    "arrayOf (rr_store s2) rq = tl q" "rrOf (rr_store s2) = (rrOf ?h)(cur := cur')"
    by (simp_all add: s2_def afterSlice_def Let_def q_def cur_def e_def cur'_def)
  have s3: "gantt s3 = gantt s2" "currentTime s3 = currentTime s2"
    "processIndex_h s3 = processIndex_h s + length tw"
    "arrayOf (rr_store s3) rq = tl q @ tw" "rrOf (rr_store s3) = (rrOf ?h)(cur := cur')"
    by (simp_all add: s3_def enqueueArrivals_h_eq s2 tw_def)
  have twv: "map (rrOf (rr_store s2)) tw = arrivedBy (currentTime s + e) allV (absRR rq s)"
  proof -
    have "map (rrOf (rr_store s2)) tw = arrivedBy (currentTime s2) allV (absRR rq s2)"
      unfolding tw_def using sim2 len by (rule arrived_values)
    then show ?thesis by (simp add: arrivedBy_def s2)
  qed
  have tlv: "map (rrOf (rr_store s2)) (tl q) = tl (map (rrOf ?h) q)"
  proof -
    have "map ((rrOf ?h)(cur := cur')) (tl q) = map (rrOf ?h) (tl q)"
      using cur(1) by (intro map_cong) auto
    then show ?thesis by (simp add: s2 map_tl)
  qed
  have rem3: "remainingBurst (rrOf (rr_store s3) cur) = remainingBurst (rrOf ?h cur) - e"
    by (simp add: s3 cur'_def)
  have body: "rrBody_h quantum all rq s =
      (if 0 < remainingBurst (rrOf ?h cur) - e
       then s3\<lparr>rr_store := setArray (rr_store s3) rq (arrayOf (rr_store s3) rq @ [cur])\<rparr>
       else s3)"
    using rrBody_h_run [OF False, of quantum all] rem3
    by (simp add: Let_def s3_def s2_def cur_def q_def)
  have hdv: "hd (map (rrOf ?h) q) = rrOf ?h cur" using ne by (simp add: hd_map cur_def)
  have val: "rrBody quantum allV (absRR rq s) =
      \<lparr>gantt = gantt s2, currentTime = currentTime s2,
       readyQueue = tl (map (rrOf ?h) q) @ arrivedBy (currentTime s + e) allV (absRR rq s) @
         (if 0 < remainingBurst (rrOf ?h cur) - e then [cur'] else []),
       processIndex = processIndex_h s +
         length (arrivedBy (currentTime s + e) allV (absRR rq s))\<rparr>"
  proof -
    have "readyQueue (absRR rq s) \<noteq> []" using ne by (simp add: q_def)
    note r = rrBody_run [OF this, of quantum allV]
    show ?thesis
      unfolding r by (simp add: Let_def absRR_def q_def [symmetric] hdv e_def [symmetric]
          cur'_def [symmetric] s2 arrivedBy_def)
  qed
  have lenv: "length tw = length (arrivedBy (currentTime s + e) allV (absRR rq s))"
    using twv by (metis length_map)
  have abs3: "absRR rq s3 =
      \<lparr>gantt = gantt s2, currentTime = currentTime s2,
       readyQueue = tl (map (rrOf ?h) q) @ arrivedBy (currentTime s + e) allV (absRR rq s),
       processIndex = processIndex_h s +
         length (arrivedBy (currentTime s + e) allV (absRR rq s))\<rparr>"
  proof -
    have "readyQueue (absRR rq s3) =
        tl (map (rrOf ?h) q) @ arrivedBy (currentTime s + e) allV (absRR rq s)"
      using twv tlv by (simp add: s3(4,5) s2(5))
    then show ?thesis using lenv by (simp add: absRR_def s3(1,2,3))
  qed
  show ?thesis
  proof (cases "0 < remainingBurst (rrOf ?h cur) - e")
    case no: False
    then show ?thesis using sim3 val abs3 by (simp add: body)
  next
    case True
    let ?push = "s3\<lparr>rr_store := setArray (rr_store s3) rq (arrayOf (rr_store s3) rq @ [cur])\<rparr>"
    have cur_in: "cur \<in> set (take (processIndex_h s3) all)"
    proof -
      have "cur \<in> set (take (processIndex_h s) all)"
        using sim ne by (auto simp: rrSim_def q_def cur_def)
      moreover have "processIndex_h s \<le> processIndex_h s3" by (simp add: s3)
      ultimately show ?thesis by (meson set_take_subset_set_take subsetD)
    qed
    have "set tw \<subseteq> set (drop (processIndex_h s) all)"
      unfolding tw_def arrivedBy_h_def by (auto dest: set_takeWhileD simp: s2)
    then have cur_notin: "cur \<notin> set (arrayOf (rr_store s3) rq)"
      using cur by (auto simp: s3)
    have simPush: "rrSim all allV rq ?push"
      using sim3 cur_in cur_notin by (simp add: rrSim_def)
    have "absRR rq ?push =
        \<lparr>gantt = gantt s2, currentTime = currentTime s2,
         readyQueue = tl (map (rrOf ?h) q) @ arrivedBy (currentTime s + e) allV (absRR rq s) @ [cur'],
         processIndex = processIndex_h s +
           length (arrivedBy (currentTime s + e) allV (absRR rq s))\<rparr>"
      using abs3 by (simp add: absRR_def s3)
    then show ?thesis using True simPush val by (simp add: body)
  qed
qed

lemma mapToRR_other [simp]:
  "procOf (fst (mapToRR h ps)) = procOf h" "arrayOf (fst (mapToRR h ps)) = arrayOf h"
  by (induction ps arbitrary: h) (simp_all add: split_def Let_def)

lemma mapToRR_refs:
  "snd (mapToRR h ps) = [nextAddr h ..< nextAddr h + length ps] \<and>
   nextAddr (fst (mapToRR h ps)) = nextAddr h + length ps"
proof (induction ps arbitrary: h)
  case Nil then show ?case by simp
next
  case (Cons p ps)
  let ?h1 = "fst (newRR h (toRR (procOf h p)))"
  from Cons.IH [of ?h1] show ?case
    by (simp add: split_def Let_def upt_conv_Cons del: upt_Suc)
qed

lemma mapToRR_rrOf_below:
  "a < nextAddr h \<Longrightarrow> rrOf (fst (mapToRR h ps)) a = rrOf h a"
  using mapToRR_frame [of "nextAddr h" h h ps] by (simp add: unchangedBelow_def)

lemma mapToRR_values:
  "map (rrOf (fst (mapToRR h ps))) (snd (mapToRR h ps)) = map (\<lambda>p. toRR (procOf h p)) ps"
proof (induction ps arbitrary: h)
  case Nil then show ?case by simp
next
  case (Cons p ps)
  let ?h1 = "fst (newRR h (toRR (procOf h p)))"
  have "rrOf (fst (mapToRR ?h1 ps)) (nextAddr h) = rrOf ?h1 (nextAddr h)"
    by (rule mapToRR_rrOf_below) simp
  then have first: "rrOf (fst (mapToRR ?h1 ps)) (nextAddr h) = toRR (procOf h p)" by simp
  have "map (rrOf (fst (mapToRR ?h1 ps))) (snd (mapToRR ?h1 ps)) = map (\<lambda>p. toRR (procOf ?h1 p)) ps"
    by (rule Cons.IH)
  then show ?case using first by (simp add: split_def Let_def)
qed

lemma distinct_sortBy: "distinct (sortBy cmp xs) = distinct xs"
  using mset_sortBy [of cmp xs] by (metis mset_eq_imp_distinct_iff)

lemma scheduleRoundRobin_h_refines:
  "map_option snd (scheduleRoundRobin_h h procs quantum) =
     scheduleRoundRobin (map (procOf h) (arrayOf h procs)) quantum"
proof -
  let ?ps = "map (procOf h) (arrayOf h procs)"
  obtain h1 refs where m: "mapToRR h (arrayOf h procs) = (h1, refs)" by fastforce
  have refs: "distinct refs" and vals: "map (rrOf h1) refs = map toRR ?ps"
    using mapToRR_refs [of h "arrayOf h procs"] mapToRR_values [of h "arrayOf h procs"]
    by (simp_all add: m comp_def)
  define all where "all = sortBy (\<lambda>a b. cmpFCFS (rrOf h1 a) (rrOf h1 b)) refs"
  define rq where "rq = Suc (nextAddr h1)"
  define h4 where "h4 = fst (newArray (setArray (fst (newArray h1 refs)) (nextAddr h1) all) [])"
  define start where "start = \<lparr>gantt = [], currentTime = 0, rr_store = h4, processIndex_h = 0\<rparr>"
  define s0 where "s0 = enqueueArrivals_h all rq 0 start"
  define b :: "rr_hstate \<Rightarrow> bool" where "b = (\<lambda>s. length (arrayOf (rr_store s) rq) > 0 \<or> processIndex_h s < length all)"
  have h4: "rrOf h4 = rrOf h1" "arrayOf h4 rq = []" by (simp_all add: h4_def rq_def)
  have allV: "map (rrOf h1) all = rrAll ?ps"
    by (simp add: all_def map_sortBy rrAll_def vals)
  have d: "distinct all" using refs by (simp add: all_def distinct_sortBy)
  have len: "length (rrAll ?ps) = length all" using allV by (metis length_map)
  have sched: "scheduleRoundRobin_h h procs quantum =
      map_option (\<lambda>s. (rr_store s, gantt s)) (while_option b (rrBody_h quantum all rq) s0)"
    by (simp add: scheduleRoundRobin_h_def m Let_def split_def all_def rq_def h4_def start_def
        s0_def b_def)
  have sim_start: "rrSim all (rrAll ?ps) rq start"
    using allV by (simp add: rrSim_def start_def h4 nth_map [symmetric] del: nth_map)
  have sim0: "rrSim all (rrAll ?ps) rq s0" unfolding s0_def using sim_start d by (rule rrSim_enqueue)
  have "absRR rq start = \<lparr>gantt = [], currentTime = 0, readyQueue = [], processIndex = 0\<rparr>"
    by (simp add: absRR_def start_def h4)
  then have abs0: "absRR rq s0 = rrInit (rrAll ?ps)"
    unfolding s0_def using enqueueArrivals_h_refines [OF sim_start len, of 0]
    by (simp add: rrInit_def)
  have "map_option (absRR rq) (while_option b (rrBody_h quantum all rq) s0) =
      while_option (rrCond (rrAll ?ps)) (rrBody quantum (rrAll ?ps)) (absRR rq s0)"
  proof (rule while_option_commute_invariant [where P = "rrSim all (rrAll ?ps) rq"])
    show "rrSim all (rrAll ?ps) rq s0" by (rule sim0)
    show "rrSim all (rrAll ?ps) rq (rrBody_h quantum all rq s)"
      if "rrSim all (rrAll ?ps) rq s" "b s" for s
      using rrBody_h_refines [OF that(1) d len] that(2) by (simp add: b_def)
    show "b s = rrCond (rrAll ?ps) (absRR rq s)" if "rrSim all (rrAll ?ps) rq s" for s
      by (simp add: b_def rrCond_def len)
    show "absRR rq (rrBody_h quantum all rq s) = rrBody quantum (rrAll ?ps) (absRR rq s)"
      if "rrSim all (rrAll ?ps) rq s" "b s" for s
      using rrBody_h_refines [OF that(1) d len] that(2) by (simp add: b_def)
  qed
  then have "map_option (absRR rq) (while_option b (rrBody_h quantum all rq) s0) =
      rrLoop ?ps quantum"
    by (simp add: abs0 rrLoop_def Let_def)
  then have "scheduleRoundRobin ?ps quantum =
      map_option gantt (map_option (absRR rq) (while_option b (rrBody_h quantum all rq) s0))"
    by (simp add: scheduleRoundRobin_def)
  also have "\<dots> = map_option snd (scheduleRoundRobin_h h procs quantum)"
    by (simp add: sched option.map_comp comp_def)
  finally show ?thesis by simp
qed

lemma simulateSchedule_h_refines:
  assumes "\<forall>r\<in>set (arrayOf h processes). r < nextAddr h"
  shows "map_option snd (simulateSchedule_h localeCompare h processes algorithm quantumArg) =
     simulateSchedule localeCompare (map (procOf h) (arrayOf h processes)) algorithm quantumArg"
proof (cases "arrayOf h processes = []")
  case True
  then show ?thesis by (simp add: simulateSchedule_h_def simulateSchedule_def)
next
  case False
  let ?ps = "map (procOf h) (arrayOf h processes)"
  obtain h1 refs where m: "mapCopy h (arrayOf h processes) = (h1, refs)" by fastforce
  define h2 where "h2 = fst (newArray h1 refs)"
  define procs where "procs = nextAddr h1"
  have vals: "map (procOf h2) (arrayOf h2 procs) = ?ps"
    using mapCopy_values [OF assms] by (simp add: m h2_def procs_def)
  have below: "procs < nextAddr h2" "\<forall>r\<in>set (arrayOf h2 procs). r < nextAddr h2"
    using mapCopy_refs [of h "arrayOf h processes"] by (auto simp: m h2_def procs_def)
  have keep: "map (procOf h3) (arrayOf h3 procs) = ?ps" if "unchangedBelow (nextAddr h2) h2 h3" for h3
  proof -
    have "arrayOf h3 procs = arrayOf h2 procs" using that below(1) by (simp add: unchangedBelow_def)
    moreover have "map (procOf h3) (arrayOf h2 procs) = map (procOf h2) (arrayOf h2 procs)"
      using that below(2) by (intro map_cong) (simp_all add: unchangedBelow_def)
    ultimately show ?thesis using vals by simp
  qed
  define metrics where "metrics = (\<lambda>(h3 :: store, g).
      (h3, (Inr (computeMetrics localeCompare (map (procOf h3) (arrayOf h3 procs)) g)
              :: error + simulation_result)))"
  have snd_metrics: "snd (metrics (h3, g)) = Inr (computeMetrics localeCompare ?ps g)"
    if "unchangedBelow (nextAddr h2) h2 h3" for h3 g
    using keep [OF that] by (simp add: metrics_def)
  have unfold: "simulateSchedule_h localeCompare h processes algorithm quantumArg =
      (if algorithm = ''FCFS'' then Some (metrics (scheduleFCFS_h h2 procs))
       else if algorithm = ''SJF'' then map_option metrics (scheduleNP_h cmpSJF h2 procs)
       else if algorithm = ''Priority'' then map_option metrics (scheduleNP_h cmpPriority h2 procs)
       else if algorithm = ''RoundRobin''
       then map_option metrics (scheduleRoundRobin_h h2 procs
              (case quantumArg of None \<Rightarrow> 2 | Some q \<Rightarrow> q))
       else Some (h2, Inl (Error (''Unknown algorithm: '' @ algorithm))))"
    using False
    by (simp add: simulateSchedule_h_def m Let_def split_def h2_def procs_def metrics_def)
  have val: "simulateSchedule localeCompare ?ps algorithm quantumArg =
      (if algorithm = ''FCFS''
       then Some (Inr (computeMetrics localeCompare ?ps (scheduleFCFS ?ps)))
       else if algorithm = ''SJF''
       then map_option (\<lambda>g. Inr (computeMetrics localeCompare ?ps g)) (scheduleSJF ?ps)
       else if algorithm = ''Priority''
       then map_option (\<lambda>g. Inr (computeMetrics localeCompare ?ps g)) (schedulePriority ?ps)
       else if algorithm = ''RoundRobin''
       then map_option (\<lambda>g. Inr (computeMetrics localeCompare ?ps g))
              (scheduleRoundRobin ?ps (case quantumArg of None \<Rightarrow> 2 | Some q \<Rightarrow> q))
       else Some (Inl (Error (''Unknown algorithm: '' @ algorithm))))"
    using False by (simp add: simulateSchedule_def Let_def)
  have lift: "map_option snd (map_option metrics x) =
      map_option (\<lambda>g. Inr (computeMetrics localeCompare ?ps g)) (map_option snd x)"
    if "\<And>h3 g. x = Some (h3, g) \<Longrightarrow> unchangedBelow (nextAddr h2) h2 h3" for x
  proof (cases x)
    case None then show ?thesis by simp
  next
    case (Some a)
    obtain h3 g where a: "a = (h3, g)" by (cases a)
    show ?thesis using snd_metrics [OF that [OF Some [unfolded a]], of g] by (simp add: Some a)
  qed
  have fcfs: "snd (metrics (scheduleFCFS_h h2 procs)) =
      Inr (computeMetrics localeCompare ?ps (scheduleFCFS ?ps))"
  proof -
    obtain h3 g where r: "scheduleFCFS_h h2 procs = (h3, g)" by fastforce
    have "unchangedBelow (nextAddr h2) h2 h3"
      using scheduleFCFS_h_frame [of "nextAddr h2" h2 h2 procs] by (simp add: r)
    moreover have "g = scheduleFCFS ?ps"
      using scheduleFCFS_h_refines [of h2 procs] by (simp add: r vals)
    ultimately show ?thesis using snd_metrics by (simp add: r)
  qed
  have np: "map_option snd (map_option metrics (scheduleNP_h cmp h2 procs)) =
      map_option (\<lambda>g. Inr (computeMetrics localeCompare ?ps g))
        (map_option gantt (npLoop cmp ?ps))" for cmp
  proof -
    have "unchangedBelow (nextAddr h2) h2 h3" if "scheduleNP_h cmp h2 procs = Some (h3, g)" for h3 g
      using scheduleNP_h_frame [OF _ _ that, of "nextAddr h2" h2] by simp
    from lift [OF this] show ?thesis by (simp add: scheduleNP_h_refines vals)
  qed
  have rr: "map_option snd (map_option metrics (scheduleRoundRobin_h h2 procs q)) =
      map_option (\<lambda>g. Inr (computeMetrics localeCompare ?ps g)) (scheduleRoundRobin ?ps q)" for q
  proof -
    have "unchangedBelow (nextAddr h2) h2 h3"
      if "scheduleRoundRobin_h h2 procs q = Some (h3, g)" for h3 g
      using scheduleRoundRobin_h_frame [OF _ _ that, of "nextAddr h2" h2] by simp
    from lift [OF this] show ?thesis by (simp add: scheduleRoundRobin_h_refines vals)
  qed
  show ?thesis
    unfolding unfold val by (simp add: fcfs np rr scheduleSJF_def schedulePriority_def)
qed

section \<open>The claims\<close>





text \<open>
  Claim C4, as stated, fails on the empty list: the test for an empty input comes before
  the \<open>switch\<close> on the policy, so the call returns the empty result for a token that
  is not a policy.
\<close>

theorem unknown_policy_empty_input:
  "simulateSchedule compareCodeUnits [] ''LIFO'' None =
     Some (Inr emptyResult)"
  by (simp add: simulateSchedule_def)

text \<open>
  Claim C4, amended.  For a non-empty input list and a token that is none of the four
  policies the call throws, whatever the quantum, and yields neither a timeline nor a
  result; for the empty list it returns the empty result whatever the token.
\<close>

theorem unknown_policy_fails:
  "(algorithm \<notin> {''FCFS'', ''SJF'', ''Priority'', ''RoundRobin''} \<longrightarrow> processes \<noteq> [] \<longrightarrow>
      simulateSchedule localeCompare processes algorithm quantumArg =
        Some (Inl (Error (''Unknown algorithm: '' @ algorithm)))) \<and>
   simulateSchedule localeCompare [] algorithm quantumArg =
     Some (Inr emptyResult)"
  by (simp add: simulateSchedule_def)

theorem unknown_policy_fails_witness:
  "''LIFO'' \<notin> {''FCFS'', ''SJF'', ''Priority'', ''RoundRobin''} \<and> getExampleProcesses \<noteq> [] \<and>
   simulateSchedule compareCodeUnits getExampleProcesses ''LIFO'' (Some 2) =
     Some (Inl (Error ''Unknown algorithm: LIFO''))"
  using unknown_policy_fails [where algorithm = "''LIFO''" and processes = getExampleProcesses
      and quantumArg = "Some 2" and localeCompare = compareCodeUnits]
  by (simp add: getExampleProcesses_def)







text \<open>
  Claim C10.  A candidate with a non-empty id and the fractional values 3/2, 1/2 and 5/2
  for arrival time, burst time and priority is accepted with no error.
\<close>

theorem validateProcess_accepts_fractions:
  "validateProcess \<lparr>pp_pid = Some ''P1'', pp_arrivalTime = Some (3 / 2),
      pp_burstTime = Some (1 / 2), pp_priority = Some (5 / 2), pp_insertionOrder = Some 0\<rparr> =
     \<lparr>valid = True, errors = []\<rparr> \<and>
   (3 / 2 :: rat) \<notin> \<int> \<and> (1 / 2 :: rat) \<notin> \<int> \<and> (5 / 2 :: rat) \<notin> \<int>"
proof -
  have half: "(of_int k :: rat) / 2 \<in> \<int> \<Longrightarrow> even k" for k
  proof -
    assume "(of_int k :: rat) / 2 \<in> \<int>"
    then obtain z where "(of_int k :: rat) / 2 = of_int z" by (auto elim: Ints_cases)
    then have "(of_int k :: rat) = of_int (2 * z)" by simp
    then have "k = 2 * z" by (simp only: of_int_eq_iff)
    then show "even k" by simp
  qed
  have "(3 / 2 :: rat) \<notin> \<int>" using half [of 3] by auto
  moreover have "(1 / 2 :: rat) \<notin> \<int>" using half [of 1] by auto
  moreover have "(5 / 2 :: rat) \<notin> \<int>" using half [of 5] by auto
  moreover have "validateProcess \<lparr>pp_pid = Some ''P1'', pp_arrivalTime = Some (3 / 2),
      pp_burstTime = Some (1 / 2), pp_priority = Some (5 / 2), pp_insertionOrder = Some 0\<rparr> =
     \<lparr>valid = True, errors = []\<rparr>"
    by (simp add: validateProcess_def trim_def isWhiteSpace_def)
  ultimately show ?thesis by simp
qed

text \<open>
  Claim C3.  One pass of the round robin loop on a non-empty queue: the head of the queue
  runs for the smaller of the quantum and its remaining burst; the processes of the sorted
  arrival list from \<open>processIndex\<close> on (those not yet enqueued) whose arrival time is
  at most the end of the slice are appended to the rest of the queue, in their order of
  arrival time and then insertion order, and the pointer moves past exactly them; the
  process that ran is appended after them when it has burst time left.  So a process
  that arrives at the very end of the slice stands ahead of the preempted process.
\<close>

theorem round_robin_arrivals_before_preempted:
  assumes "readyQueue s \<noteq> []"
    and "current = hd (readyQueue s)"
    and "execTime = min quantum (remainingBurst current)"
    and "sliceEnd = currentTime s + execTime"
    and "arrivals = filter (\<lambda>p. arrivalTime p \<le> sliceEnd) (drop (processIndex s) (rrAll ps))"
    and "preempted = current\<lparr>remainingBurst := remainingBurst current - execTime\<rparr>"
  shows "gantt (rrBody quantum (rrAll ps) s) =
           gantt s @ [runSegment (pid current) (currentTime s) sliceEnd] \<and>
         readyQueue (rrBody quantum (rrAll ps) s) =
           tl (readyQueue s) @ arrivals @ (if 0 < remainingBurst preempted then [preempted] else []) \<and>
         processIndex (rrBody quantum (rrAll ps) s) = processIndex s + length arrivals \<and>
         drop (processIndex s) (rrAll ps) =
           arrivals @ drop (processIndex (rrBody quantum (rrAll ps) s)) (rrAll ps) \<and>
         sorted_wrt (\<lambda>a b. arrivalTime a < arrivalTime b \<or>
            (arrivalTime a = arrivalTime b \<and> insertionOrder a \<le> insertionOrder b)) arrivals \<and>
         (\<forall>p\<in>set (drop (processIndex s) (rrAll ps)).
            arrivalTime p = sliceEnd \<and> 0 < remainingBurst preempted \<longrightarrow>
            (\<exists>before between. readyQueue (rrBody quantum (rrAll ps) s) =
               before @ p # between @ [preempted]))"
proof -
  let ?all = "rrAll ps"
  have tw: "arrivedBy sliceEnd ?all s = arrivals"
    unfolding arrivedBy_def assms(5)
    by (rule sorted_takeWhile_filter) (rule sorted_map_drop [OF sorted_rrAll])
  note body = rrBody_run_explicit [OF assms(1) assms(3) [unfolded assms(2)] refl,
      of ?all, folded assms(2), folded assms(4), unfolded tw, folded assms(6)]
  have g: "gantt (rrBody quantum ?all s) = gantt s @ [runSegment (pid current) (currentTime s) sliceEnd]"
    by (simp add: body)
  have q: "readyQueue (rrBody quantum ?all s) =
      tl (readyQueue s) @ arrivals @ (if 0 < remainingBurst preempted then [preempted] else [])"
    by (simp add: body assms(6))
  have i: "processIndex (rrBody quantum ?all s) = processIndex s + length arrivals"
    by (simp add: body)
  have d: "drop (processIndex s) ?all = arrivals @ drop (processIndex (rrBody quantum ?all s)) ?all"
    unfolding i using arrivedBy_split [of s ?all sliceEnd] by (simp only: tw)
  have "sorted_wrt (\<lambda>a b. arrivalTime a < arrivalTime b \<or>
      (arrivalTime a = arrivalTime b \<and> insertionOrder a \<le> insertionOrder b))
      (drop (processIndex s) ?all)"
    using sorted_key_rrAll by (rule sorted_wrt_drop)
  then have srt: "sorted_wrt (\<lambda>a b. arrivalTime a < arrivalTime b \<or>
      (arrivalTime a = arrivalTime b \<and> insertionOrder a \<le> insertionOrder b)) arrivals"
    unfolding assms(5) by (rule sorted_wrt_filter)
  have ahead: "\<exists>before between. readyQueue (rrBody quantum ?all s) = before @ p # between @ [preempted]"
    if "p \<in> set (drop (processIndex s) ?all)" "arrivalTime p = sliceEnd \<and> 0 < remainingBurst preempted"
    for p
  proof -
    have "p \<in> set arrivals" using that by (simp add: assms(5))
    then obtain xs ys where "arrivals = xs @ p # ys" by (meson split_list)
    then have "readyQueue (rrBody quantum ?all s) = (tl (readyQueue s) @ xs) @ p # ys @ [preempted]"
      using that(2) by (simp add: q)
    then show ?thesis by blast
  qed
  show ?thesis using g q i d srt ahead by blast
qed

theorem round_robin_arrivals_before_preempted_witness:
  "readyQueue (rrInit (rrAll tieExample)) \<noteq> [] \<and>
   readyQueue (rrBody 2 (rrAll tieExample) (rrInit (rrAll tieExample))) =
     [\<lparr>pid = ''P2'', arrivalTime = 2, burstTime = 2, priority = 1, insertionOrder = 1,
        remainingBurst = 2\<rparr>,
      \<lparr>pid = ''P1'', arrivalTime = 0, burstTime = 4, priority = 1, insertionOrder = 0,
        remainingBurst = 2\<rparr>]"
proof -
  have a: "rrAll tieExample =
     [\<lparr>pid = ''P1'', arrivalTime = 0, burstTime = 4, priority = 1, insertionOrder = 0,
        remainingBurst = 4\<rparr>,
      \<lparr>pid = ''P2'', arrivalTime = 2, burstTime = 2, priority = 1, insertionOrder = 1,
        remainingBurst = 2\<rparr>]"
    by (simp add: rrAll_def tieExample_def sortBy_def toRR_def cmpFCFS_def)
  have i: "rrInit (rrAll tieExample) =
     \<lparr>gantt = [], currentTime = 0,
      readyQueue = [\<lparr>pid = ''P1'', arrivalTime = 0, burstTime = 4, priority = 1,
        insertionOrder = 0, remainingBurst = 4\<rparr>],
      processIndex = 1\<rparr>"
    by (simp add: a rrInit_eq)
  have ne: "readyQueue (rrInit (rrAll tieExample)) \<noteq> []" by (simp add: i)
  from round_robin_arrivals_before_preempted [OF ne refl refl refl refl refl, of 2 tieExample]
  have "readyQueue (rrBody 2 (rrAll tieExample) (rrInit (rrAll tieExample))) =
     [\<lparr>pid = ''P2'', arrivalTime = 2, burstTime = 2, priority = 1, insertionOrder = 1,
        remainingBurst = 2\<rparr>,
      \<lparr>pid = ''P1'', arrivalTime = 0, burstTime = 4, priority = 1, insertionOrder = 0,
        remainingBurst = 2\<rparr>]"
    by (simp add: a i [unfolded a])
  with ne show ?thesis by simp
qed

text \<open>
  Claim C7.  For every input list the timeline of \<open>scheduleFCFS\<close>, one stable sort by
  arrival time and insertion order followed by one pass, is the timeline of the general
  loop of the specification under the FCFS ordering.
\<close>

theorem fcfs_sort_is_general_loop: "specLoop cmpFCFS ps = Some (scheduleFCFS ps)"
proof -
  have "gantt (fold fcfsStep (sortBy cmpFCFS ps) \<lparr>gantt = [], currentTime = 0, remaining = ps\<rparr>) =
      gantt (fold fcfsStep (sortBy cmpFCFS ps) \<lparr>gantt = [], currentTime = 0\<rparr>)"
    by (rule fold_fcfsStep_gantt) simp_all
  then show ?thesis by (simp add: specLoop_def specLoop_fold scheduleFCFS_def Let_def)
qed

theorem fcfs_sort_is_general_loop_witness:
  "specLoop cmpFCFS getExampleProcesses =
     Some [runSegment ''P1'' 0 5, runSegment ''P2'' 5 8, runSegment ''P3'' 8 16,
           runSegment ''P4'' 16 22, runSegment ''P5'' 22 26]"
  using fcfs_sort_is_general_loop [of getExampleProcesses]
  by (simp add: scheduleFCFS_def getExampleProcesses_def sortBy_def cmpFCFS_def fcfsStep_def
      runSegment_def Let_def)

text \<open>
  Claim C8.  Let the caller's list be an allocated array of references to allocated
  \<open>Process\<close> objects.  For every policy token and every quantum, the store-level call
  returns, throws or runs forever exactly as the value-level call does on the values of
  the descriptors, with the same result; and whenever it returns or throws, the caller's
  list holds the same references in the same order, every descriptor of the list has all
  its fields unchanged, and so has everything else that was allocated before the call.
  Round robin writes \<open>remainingBurst\<close> only to the objects it has created itself.
\<close>

theorem inputs_unchanged:
  assumes "processes < nextAddr h"
    and "list_all (\<lambda>r. r < nextAddr h) (arrayOf h processes)"
  shows "map_option snd (simulateSchedule_h localeCompare h processes algorithm quantumArg) =
           simulateSchedule localeCompare (map (procOf h) (arrayOf h processes)) algorithm quantumArg \<and>
         (\<forall>h' outcome.
            simulateSchedule_h localeCompare h processes algorithm quantumArg = Some (h', outcome) \<longrightarrow>
            arrayOf h' processes = arrayOf h processes \<and>
            (\<forall>r\<in>set (arrayOf h processes). procOf h' r = procOf h r) \<and>
            (\<forall>a<nextAddr h.
               procOf h' a = procOf h a \<and> rrOf h' a = rrOf h a \<and> arrayOf h' a = arrayOf h a))"
proof (rule conjI)
  have refs: "\<forall>r\<in>set (arrayOf h processes). r < nextAddr h"
    using assms(2) by (simp add: list_all_iff)
  show "map_option snd (simulateSchedule_h localeCompare h processes algorithm quantumArg) =
      simulateSchedule localeCompare (map (procOf h) (arrayOf h processes)) algorithm quantumArg"
    using refs by (rule simulateSchedule_h_refines)
  show "\<forall>h' outcome.
      simulateSchedule_h localeCompare h processes algorithm quantumArg = Some (h', outcome) \<longrightarrow>
      arrayOf h' processes = arrayOf h processes \<and>
      (\<forall>r\<in>set (arrayOf h processes). procOf h' r = procOf h r) \<and>
      (\<forall>a<nextAddr h.
         procOf h' a = procOf h a \<and> rrOf h' a = rrOf h a \<and> arrayOf h' a = arrayOf h a)"
  proof (intro allI impI)
    fix h' outcome
    assume "simulateSchedule_h localeCompare h processes algorithm quantumArg = Some (h', outcome)"
    then have "unchangedBelow (nextAddr h) h h'" by (rule simulateSchedule_h_frame)
    then show "arrayOf h' processes = arrayOf h processes \<and>
      (\<forall>r\<in>set (arrayOf h processes). procOf h' r = procOf h r) \<and>
      (\<forall>a<nextAddr h.
         procOf h' a = procOf h a \<and> rrOf h' a = rrOf h a \<and> arrayOf h' a = arrayOf h a)"
      using assms(1) refs by (simp add: unchangedBelow_def)
  qed
qed

theorem inputs_unchanged_witness:
  "5 < nextAddr exampleStore \<and>
   list_all (\<lambda>r. r < nextAddr exampleStore) (arrayOf exampleStore 5) \<and>
   (\<exists>h' r. simulateSchedule_h compareCodeUnits exampleStore 5 ''RoundRobin'' None = Some (h', Inr r) \<and>
      arrayOf h' 5 = [0, 1, 2, 3, 4] \<and>
      map (procOf h') (arrayOf h' 5) = getExampleProcesses)"
proof -
  have a: "5 < nextAddr exampleStore" by (simp add: exampleStore_def)
  have b: "list_all (\<lambda>r. r < nextAddr exampleStore) (arrayOf exampleStore 5)"
    by (simp add: exampleStore_def)
  have arr: "arrayOf exampleStore 5 = [0, 1, 2, 3, 4]" by (simp add: exampleStore_def)
  have vals: "map (procOf exampleStore) (arrayOf exampleStore 5) = getExampleProcesses"
    by (simp add: exampleStore_def getExampleProcesses_def)
  have pos: "\<forall>p\<in>set getExampleProcesses. 0 < burstTime p"
    by (simp add: getExampleProcesses_def)
  have sup: "supportedPolicy ''RoundRobin'' None" by (simp add: supportedPolicy_def)
  from simulateSchedule_returns [OF pos sup, where localeCompare = compareCodeUnits]
  obtain r where
    r: "simulateSchedule compareCodeUnits getExampleProcesses ''RoundRobin'' None = Some (Inr r)"
    by blast
  note t = inputs_unchanged [OF a b, where algorithm = "''RoundRobin''" and quantumArg = None
      and localeCompare = compareCodeUnits]
  from t have "map_option snd (simulateSchedule_h compareCodeUnits exampleStore 5 ''RoundRobin'' None) = Some (Inr r)"
    by (simp add: vals r)
  then obtain h' where h': "simulateSchedule_h compareCodeUnits exampleStore 5 ''RoundRobin'' None = Some (h', Inr r)"
    by auto
  with t have "arrayOf h' 5 = arrayOf exampleStore 5"
    and "\<forall>r\<in>set (arrayOf exampleStore 5). procOf h' r = procOf exampleStore r" by blast+
  then have "arrayOf h' 5 = [0, 1, 2, 3, 4]"
    and "map (procOf h') (arrayOf h' 5) = getExampleProcesses"
    using vals by (simp_all add: arr)
  with a b h' show ?thesis by blast
qed

end
